theory Spec2Isabelle
  imports Complex_Main "HOL-Library.Log_Nat" "HOL-Library.Char_ord" "HOL-Library.List_Lexorder"
    "HOL-Library.Sublist"
begin

section \<open>Python numbers: unbounded integers and binary64 floats\<close>

text \<open>
  The size calculator of \<^verbatim>\<open>resize.py\<close> mixes Python integers (unbounded) with Python
  floats (IEEE 754 binary64, round to nearest, ties to even). A finite float is modelled by
  the rational number it denotes; every float operation is the exact operation followed by
  \<open>to_double\<close>. The two zeros of IEEE 754 are identified: the program only tests a zero for
  truth and truncates it, and both zeros behave alike there.
\<close>

datatype pyerror = ZeroDivisionError | OverflowError | ValueError

datatype pyfloat = Finite rat | PosInf | NegInf | NaN

datatype pynum = PyInt int | PyFloat pyfloat

definition pow2 :: "int \<Rightarrow> rat" where
  "pow2 k = (if 0 \<le> k then 2 ^ nat k else 1 / 2 ^ nat (- k))"

text \<open>The binary exponent of a positive rational: \<open>2 ^ ilog2 x \<le> x < 2 ^ (ilog2 x + 1)\<close>.\<close>

definition ilog2 :: "rat \<Rightarrow> int" where
  "ilog2 x = (if 1 \<le> x then int (floorlog 2 (nat \<lfloor>x\<rfloor>)) - 1
              else - int (floorlog 2 (nat (\<lceil>1 / x\<rceil> - 1))))"

definition round_half_even :: "rat \<Rightarrow> int" where
  "round_half_even x =
     (let n = \<lfloor>x\<rfloor>; r = x - of_int n
      in if r < 1 / 2 then n else if 1 / 2 < r then n + 1 else if even n then n else n + 1)"

text \<open>
  The spacing of binary64 numbers around \<open>x\<close>: 53 significant bits in the normal range, the
  fixed spacing \<open>2 ^ - 1074\<close> in the subnormal range.
\<close>

definition quantum :: "rat \<Rightarrow> rat" where
  "quantum x = pow2 (max (ilog2 \<bar>x\<bar>) (- 1022) - 52)"

definition round_double :: "rat \<Rightarrow> rat" where
  "round_double x =
     (if x = 0 then 0 else of_int (round_half_even (x / quantum x)) * quantum x)"

definition to_double :: "rat \<Rightarrow> pyfloat" where
  "to_double x =
     (let y = round_double x
      in if pow2 1024 \<le> y then PosInf else if y \<le> - pow2 1024 then NegInf else Finite y)"

text \<open>\<^verbatim>\<open>float * float\<close>: overflow gives an infinity, never an exception.\<close>

fun float_sgn :: "pyfloat \<Rightarrow> rat" where
  "float_sgn (Finite a) = sgn a"
| "float_sgn PosInf = 1"
| "float_sgn NegInf = - 1"
| "float_sgn NaN = 0"

fun float_mul :: "pyfloat \<Rightarrow> pyfloat \<Rightarrow> pyfloat" where
  "float_mul (Finite a) (Finite b) = to_double (a * b)"
| "float_mul a b =
     (if a = NaN \<or> b = NaN \<or> float_sgn a * float_sgn b = 0 then NaN
      else if 0 < float_sgn a * float_sgn b then PosInf else NegInf)"

text \<open>
  The conversion of an integer to a float, as \<^verbatim>\<open>int * float\<close> performs it on its integer
  operand: correctly rounded, \<^verbatim>\<open>OverflowError\<close> when the integer is too large.
\<close>

definition float_of_int :: "int \<Rightarrow> pyerror + pyfloat" where
  "float_of_int n =
     (case to_double (of_int n) of
        Finite y \<Rightarrow> Inr (Finite y)
      | _ \<Rightarrow> Inl OverflowError)"

text \<open>\<^verbatim>\<open>n * x\<close> for an integer \<open>n\<close> and a number \<open>x\<close>.\<close>

fun int_mul :: "int \<Rightarrow> pynum \<Rightarrow> pyerror + pynum" where
  "int_mul n (PyInt k) = Inr (PyInt (n * k))"
| "int_mul n (PyFloat f) =
     (case float_of_int n of
        Inl e \<Rightarrow> Inl e
      | Inr g \<Rightarrow> Inr (PyFloat (float_mul g f)))"

text \<open>
  \<^verbatim>\<open>a / b\<close> for two integers: the correctly rounded quotient, \<^verbatim>\<open>ZeroDivisionError\<close> for a
  zero divisor, \<^verbatim>\<open>OverflowError\<close> when the quotient is too large for a float.
\<close>

definition int_truediv :: "int \<Rightarrow> int \<Rightarrow> pyerror + rat" where
  "int_truediv a b =
     (if b = 0 then Inl ZeroDivisionError
      else case to_double (of_int a / of_int b) of
             Finite y \<Rightarrow> Inr y
           | _ \<Rightarrow> Inl OverflowError)"

text \<open>\<^verbatim>\<open>int(x)\<close>: truncation toward zero; an infinity or a NaN raises.\<close>

definition trunc :: "rat \<Rightarrow> int" where
  "trunc x = (if 0 \<le> x then \<lfloor>x\<rfloor> else \<lceil>x\<rceil>)"

fun py_int :: "pynum \<Rightarrow> pyerror + int" where
  "py_int (PyInt n) = Inr n"
| "py_int (PyFloat (Finite x)) = Inr (trunc x)"
| "py_int (PyFloat NaN) = Inl ValueError"
| "py_int (PyFloat _) = Inl OverflowError"

text \<open>The truth value of a number: every number but zero is true.\<close>

fun truthy :: "pynum \<Rightarrow> bool" where
  "truthy (PyInt n) = (n \<noteq> 0)"
| "truthy (PyFloat f) = (f \<noteq> Finite 0)"

section \<open>The size calculator\<close>

text \<open>
  \<^verbatim>\<open>if scale:\<close>, \<^verbatim>\<open>if width:\<close> and \<^verbatim>\<open>if height:\<close> hold when the argument is neither
  \<^verbatim>\<open>None\<close> nor zero; \<open>if_num\<close> and \<open>if_int\<close> give the value the branch then works with.
\<close>

fun if_num :: "pynum option \<Rightarrow> pynum option" where
  "if_num None = None"
| "if_num (Some v) = (if truthy v then Some v else None)"

fun if_int :: "int option \<Rightarrow> int option" where
  "if_int None = None"
| "if_int (Some n) = (if n \<noteq> 0 then Some n else None)"

text \<open>\<^verbatim>\<open>int(orig * factor)\<close>\<close>

definition scaled :: "int \<Rightarrow> pynum \<Rightarrow> pyerror + int" where
  "scaled orig factor =
     (case int_mul orig factor of
        Inl e \<Rightarrow> Inl e
      | Inr p \<Rightarrow> py_int p)"

text \<open>\<^verbatim>\<open>(int(orig_w * factor), int(orig_h * factor))\<close>, evaluated left to right.\<close>

definition scaled_pair :: "int \<Rightarrow> int \<Rightarrow> pynum \<Rightarrow> pyerror + int \<times> int" where
  "scaled_pair orig_w orig_h factor =
     (case scaled orig_w factor of
        Inl e \<Rightarrow> Inl e
      | Inr a \<Rightarrow> (case scaled orig_h factor of
                   Inl e \<Rightarrow> Inl e
                 | Inr b \<Rightarrow> Inr (a, b)))"

definition calculate_size ::
  "int \<times> int \<Rightarrow> int option \<Rightarrow> int option \<Rightarrow> pynum option \<Rightarrow> bool \<Rightarrow> pyerror + int \<times> int"
where
  "calculate_size original_size width height scale maintain_aspect =
     (case original_size of (orig_w, orig_h) \<Rightarrow>
        (case if_num scale of
           Some s \<Rightarrow> scaled_pair orig_w orig_h s
         | None \<Rightarrow>
             (case (if_int width, if_int height) of
                (Some W, Some H) \<Rightarrow>
                  if maintain_aspect then
                    (case int_truediv W orig_w of
                       Inl e \<Rightarrow> Inl e
                     | Inr rw \<Rightarrow>
                         (case int_truediv H orig_h of
                            Inl e \<Rightarrow> Inl e
                          | Inr rh \<Rightarrow>
                              scaled_pair orig_w orig_h (PyFloat (Finite (min rw rh)))))
                  else Inr (W, H)
              | (Some W, None) \<Rightarrow>
                  (case int_truediv W orig_w of
                     Inl e \<Rightarrow> Inl e
                   | Inr ratio \<Rightarrow>
                       (case scaled orig_h (PyFloat (Finite ratio)) of
                          Inl e \<Rightarrow> Inl e
                        | Inr b \<Rightarrow> Inr (W, b)))
              | (None, Some H) \<Rightarrow>
                  (case int_truediv H orig_h of
                     Inl e \<Rightarrow> Inl e
                   | Inr ratio \<Rightarrow>
                       (case scaled orig_w (PyFloat (Finite ratio)) of
                          Inl e \<Rightarrow> Inl e
                        | Inr a \<Rightarrow> Inr (a, H)))
              | (None, None) \<Rightarrow> Inr original_size)))"

section \<open>Strings and paths\<close>

text \<open>
  File names are strings of bytes. \<^verbatim>\<open>str.lower\<close> and \<^verbatim>\<open>str.upper\<close> are modelled on the ASCII
  letters and leave every other byte as it is. Paths follow \<^verbatim>\<open>pathlib.PurePosixPath\<close>.
\<close>

definition lower_char :: "char \<Rightarrow> char" where
  "lower_char c =
     (let n = (of_char c :: nat) in if 65 \<le> n \<and> n \<le> 90 then char_of (n + 32) else c)"

definition upper_char :: "char \<Rightarrow> char" where
  "upper_char c =
     (let n = (of_char c :: nat) in if 97 \<le> n \<and> n \<le> 122 then char_of (n - 32) else c)"

definition lower :: "string \<Rightarrow> string" where
  "lower s = map lower_char s"

definition upper :: "string \<Rightarrow> string" where
  "upper s = map upper_char s"

definition endswith :: "string \<Rightarrow> string \<Rightarrow> bool" where
  "endswith s ext = suffix ext s"

text \<open>\<^verbatim>\<open>s.split(d)\<close>\<close>

fun split_on :: "char \<Rightarrow> string \<Rightarrow> string list" where
  "split_on d [] = [[]]"
| "split_on d (c # cs) =
     (if c = d then [] # split_on d cs
      else (case split_on d cs of
              [] \<Rightarrow> [[c]]
            | r # rs \<Rightarrow> (c # r) # rs))"

text \<open>\<^verbatim>\<open>sep.join(parts)\<close>\<close>

fun join_with :: "string \<Rightarrow> string list \<Rightarrow> string" where
  "join_with sep [] = []"
| "join_with sep [c] = c"
| "join_with sep (c # d # cs) = c @ sep @ join_with sep (d # cs)"

text \<open>
  A path is kept as its text. Parsing the text gives a root (none, one slash, or two
  slashes when the text starts with exactly two) and the components, where empty
  components and \<^verbatim>\<open>.\<close> components are dropped; \<open>path_str\<close> is \<^verbatim>\<open>str(Path(p))\<close>, the text
  of the parsed path.
\<close>

definition path_root :: "string \<Rightarrow> string" where
  "path_root p =
     (if take 2 p = ''//'' \<and> take 3 p \<noteq> ''///'' then ''//''
      else if take 1 p = ''/'' then ''/'' else [])"

definition path_parts :: "string \<Rightarrow> string list" where
  "path_parts p = filter (\<lambda>c. c \<noteq> [] \<and> c \<noteq> ''.'') (split_on CHR ''/'' p)"

definition path_str :: "string \<Rightarrow> string" where
  "path_str p =
     (if path_root p = [] \<and> path_parts p = [] then ''.''
      else path_root p @ join_with ''/'' (path_parts p))"

text \<open>
  \<^verbatim>\<open>Path(p).name\<close>: the last component of the path, where empty components and \<^verbatim>\<open>.\<close>
  components do not count; the empty string when there is none.
\<close>

definition path_name :: "string \<Rightarrow> string" where
  "path_name p =
     (case filter (\<lambda>c. c \<noteq> [] \<and> c \<noteq> ''.'') (split_on CHR ''/'' p) of
        [] \<Rightarrow> []
      | c # cs \<Rightarrow> last (c # cs))"

text \<open>\<^verbatim>\<open>s.rfind(c)\<close>: the index of the last occurrence, \<open>- 1\<close> when there is none.\<close>

definition rfind :: "char \<Rightarrow> string \<Rightarrow> int" where
  "rfind c s =
     (if c \<in> set s then int (length s) - 1 - int (length (takeWhile (\<lambda>x. x \<noteq> c) (rev s)))
      else - 1)"

text \<open>
  \<^verbatim>\<open>Path(p).stem\<close>: the name without its last suffix; a dot that starts or ends the name
  does not start a suffix.
\<close>

definition path_stem :: "string \<Rightarrow> string" where
  "path_stem p =
     (let name = path_name p; i = rfind CHR ''.'' name
      in if 0 < i \<and> i < int (length name) - 1 then take (nat i) name else name)"

text \<open>
  \<^verbatim>\<open>Path(folder) / name\<close>, as text: the two texts are joined as \<^verbatim>\<open>posixpath.join\<close> joins
  them (an absolute right operand replaces the left one) and the result is parsed, so
  that \<^verbatim>\<open>.\<close> components and repeated or trailing slashes disappear.
\<close>

definition path_join :: "string \<Rightarrow> string \<Rightarrow> string" where
  "path_join folder name =
     (let a = path_str folder
      in path_str (if take 1 name = ''/'' then name
                   else if a = [] \<or> last a = CHR ''/'' then a @ name
                   else a @ ''/'' @ name))"

section \<open>The resizer\<close>

text \<open>
  \<^verbatim>\<open>SUPPORTED_FORMATS\<close> is a Python set; the list fixes one order of iteration. Of the
  two loops over it, one asks whether any element matches and the other sorts what it
  collects.
\<close>

definition SUPPORTED_FORMATS :: "string list" where
  "SUPPORTED_FORMATS = [''.jpg'', ''.jpeg'', ''.png'', ''.bmp'', ''.gif'', ''.tiff'', ''.webp'']"

text \<open>
  A decoded image: its mode, its size, and its pixels. The pixels are kept symbolic, as the
  calls of the imaging library that produce them: the decoded bytes, a resampling to a
  size, one band of an image, a canvas filled with one colour, and the result of pasting a
  source onto a canvas through a mask.
\<close>

datatype pixels =
    Decoded "nat list"
  | Resampled pixels "int \<times> int"
  | Band pixels nat
  | Filled "nat \<times> nat \<times> nat"
  | Pasted pixels pixels pixels

record image =
  mode :: string
  im_size :: "int \<times> int"
  im_data :: pixels

text \<open>
  The exceptions the program catches: \<^verbatim>\<open>requests.exceptions.RequestException\<close>, an
  exception raised by the size calculator, the \<^verbatim>\<open>UnicodeEncodeError\<close> of a standard output
  that cannot encode a line, and any other \<^verbatim>\<open>Exception\<close> raised by the imaging library or
  the operating system.
\<close>

datatype exn = RequestException | Calculation pyerror | UnicodeEncodeError | Library_Exception

record save_kwargs =
  kw_quality :: "int option"
  kw_optimize :: bool

text \<open>
  The lines the program prints. Four of them start with a check mark (U+2713) or a
  ballot cross (U+2717): \<open>Saved\<close>, \<open>Download_failed\<close>, \<open>Process_failed\<close> and \<open>File_failed\<close>.
\<close>

datatype message =
    Downloading string
  | Original_size "int \<times> int"
  | New_size "int \<times> int"
  | Saved string
  | Download_failed exn
  | Process_failed exn
  | Processing_images nat
  | Item nat nat
  | Completed nat nat
  | Output_folder string
  | No_images string
  | Found_images nat
  | Processing string
  | File_failed string exn

text \<open>
  The outside world is a state \<open>'w\<close> and the operations on it: printing a line, which
  raises when the standard output does not take it, the HTTP request with its status
  check, the decoder, the resampling filter, saving a file, listing a folder and opening a
  file of it.
\<close>

record 'w env =
  print :: "'w \<Rightarrow> message \<Rightarrow> (exn + unit) \<times> 'w"
  http_get :: "'w \<Rightarrow> string \<Rightarrow> (exn + nat list) \<times> 'w"
  image_open :: "nat list \<Rightarrow> exn + image"
  resize :: "image \<Rightarrow> int \<times> int \<Rightarrow> exn + image"
  save :: "'w \<Rightarrow> string \<Rightarrow> image \<Rightarrow> save_kwargs \<Rightarrow> (exn + unit) \<times> 'w"
  listdir :: "'w \<Rightarrow> string \<Rightarrow> string list"
  open_file :: "'w \<Rightarrow> string \<Rightarrow> exn + image"
  case_sensitive :: bool

text \<open>
  One statement after another: when the first raises, the rest is skipped and the
  exception is the result.
\<close>

definition and_then ::
  "('e + 'a) \<times> 'w \<Rightarrow> ('a \<Rightarrow> 'w \<Rightarrow> ('e + 'b) \<times> 'w) \<Rightarrow> ('e + 'b) \<times> 'w" where
  "and_then r f = (case r of (Inl x, w) \<Rightarrow> (Inl x, w) | (Inr a, w) \<Rightarrow> f a w)"

text \<open>The keyword arguments of the \<^verbatim>\<open>process_\<close> methods, with their defaults filled in.\<close>

record options =
  width :: "int option"
  height :: "int option"
  scale :: "pynum option"
  maintain_aspect :: bool
  output_format :: "string option"
  quality :: int
  filename :: "string option"

text \<open>\<^verbatim>\<open>if s:\<close> for an optional string: neither \<^verbatim>\<open>None\<close> nor empty.\<close>

fun if_str :: "string option \<Rightarrow> string option" where
  "if_str None = None"
| "if_str (Some s) = (if s \<noteq> [] then Some s else None)"

text \<open>Lines 40 to 47: the name of the output file of \<^verbatim>\<open>process_from_url\<close>.\<close>

definition url_filename :: "string \<Rightarrow> string option \<Rightarrow> string" where
  "url_filename url fname =
     (case if_str fname of
        Some f \<Rightarrow> f
      | None \<Rightarrow>
          (let f = (if path_name url \<noteq> [] then path_name url else ''downloaded_image'')
           in if \<not> list_ex (\<lambda>ext. endswith (lower f) ext) SUPPORTED_FORMATS
              then f @ ''.jpg'' else f))"

definition apply_format :: "string \<Rightarrow> string option \<Rightarrow> string" where
  "apply_format fname fmt =
     (case if_str fmt of
        Some f \<Rightarrow> path_stem fname @ ''.'' @ lower f
      | None \<Rightarrow> fname)"

text \<open>Line 49: the path of the output file of \<^verbatim>\<open>process_from_url\<close>.\<close>

definition url_output_path :: "string \<Rightarrow> string \<Rightarrow> options \<Rightarrow> string" where
  "url_output_path output_folder url opts =
     path_join output_folder
       (apply_format (url_filename url (filename opts)) (output_format opts))"

text \<open>Lines 111 to 117: the path of the output file of \<^verbatim>\<open>process_from_folder\<close>.\<close>

definition folder_output_path :: "string \<Rightarrow> string \<Rightarrow> options \<Rightarrow> string" where
  "folder_output_path output_folder img_path opts =
     path_join output_folder
       (case if_str (output_format opts) of
          Some f \<Rightarrow> path_stem img_path @ ''.'' @ lower f
        | None \<Rightarrow> path_name img_path)"

text \<open>
  Lines 58 to 60, and again lines 124 to 126: a new \<^verbatim>\<open>RGB\<close> image of the same size filled
  with \<open>(255, 255, 255)\<close>, onto which the resized image is pasted with its fourth band, the
  alpha channel, as the mask.
\<close>

definition flatten :: "image \<Rightarrow> image" where
  "flatten resized =
     \<lparr>mode = ''RGB'', im_size = im_size resized,
      im_data = Pasted (Filled (255, 255, 255)) (im_data resized) (Band (im_data resized) 3)\<rparr>"

text \<open>
  Lines 52 to 60, and again lines 119 to 126: the arguments of \<^verbatim>\<open>save\<close> and the image that
  is saved.
\<close>

definition save_settings :: "image \<Rightarrow> string option \<Rightarrow> int \<Rightarrow> image \<times> save_kwargs" where
  "save_settings resized fmt q =
     (case if_str fmt of
        None \<Rightarrow> (resized, \<lparr>kw_quality = Some q, kw_optimize = True\<rparr>)
      | Some f \<Rightarrow>
          if lower f = ''png'' then (resized, \<lparr>kw_quality = None, kw_optimize = True\<rparr>)
          else if mode resized = ''RGBA'' \<and> lower f \<in> set [''jpg'', ''jpeg'']
          then (flatten resized, \<lparr>kw_quality = Some q, kw_optimize = True\<rparr>)
          else (resized, \<lparr>kw_quality = Some q, kw_optimize = True\<rparr>))"

text \<open>The size calculator as a step of the resizer: its exceptions are exceptions.\<close>

definition new_size_of :: "image \<Rightarrow> options \<Rightarrow> exn + int \<times> int" where
  "new_size_of img opts =
     (case calculate_size (im_size img) (width opts) (height opts) (scale opts)
             (maintain_aspect opts) of
        Inl err \<Rightarrow> Inl (Calculation err)
      | Inr new_size \<Rightarrow> Inr new_size)"

text \<open>
  Lines 19 to 37 of \<^verbatim>\<open>process_from_url\<close>, the first part of the \<^verbatim>\<open>try\<close> block: from the
  first line printed to the resized image.
\<close>

definition fetch_and_resize ::
  "'w env \<Rightarrow> 'w \<Rightarrow> string \<Rightarrow> options \<Rightarrow> (exn + image) \<times> 'w" where
  "fetch_and_resize e w url opts =
     and_then (print e w (Downloading url)) (\<lambda>u w1.
     and_then (http_get e w1 url) (\<lambda>content w2.
     and_then (image_open e content, w2) (\<lambda>img w3.
     and_then (print e w3 (Original_size (im_size img))) (\<lambda>u w4.
     and_then (new_size_of img opts, w4) (\<lambda>new_size w5.
     and_then (print e w5 (New_size new_size)) (\<lambda>u w6.
     (resize e img new_size, w6)))))))"

text \<open>
  Lines 66 to 71, the two \<^verbatim>\<open>except\<close> clauses: a line is printed and \<^verbatim>\<open>None\<close> is returned.
  An exception raised by that \<^verbatim>\<open>print\<close> is raised inside a handler, where no clause
  catches it: it leaves the method.
\<close>

definition url_except :: "'w env \<Rightarrow> exn \<Rightarrow> 'w \<Rightarrow> (exn + string option) \<times> 'w" where
  "url_except e x w =
     and_then (print e w (if x = RequestException then Download_failed x
                          else Process_failed x))
       (\<lambda>u w1. (Inr None, w1))"

text \<open>
  \<^verbatim>\<open>process_from_url\<close>: \<open>Inr\<close> is the value returned, the output path or \<^verbatim>\<open>None\<close>, and
  \<open>Inl\<close> is an exception that leaves the method.
\<close>

definition process_from_url ::
  "'w env \<Rightarrow> string \<Rightarrow> 'w \<Rightarrow> string \<Rightarrow> options \<Rightarrow> (exn + string option) \<times> 'w"
where
  "process_from_url e output_folder w url opts =
     (case fetch_and_resize e w url opts of
        (Inl x, w1) \<Rightarrow> url_except e x w1
      | (Inr resized, w1) \<Rightarrow>
          (let output_path = url_output_path output_folder url opts;
               (saved, kwargs) = save_settings resized (output_format opts) (quality opts)
           in case save e w1 output_path saved kwargs of
                (Inl x, w2) \<Rightarrow> url_except e x w2
              | (Inr u, w2) \<Rightarrow>
                  (case print e w2 (Saved output_path) of
                     (Inl x, w3) \<Rightarrow> url_except e x w3
                   | (Inr u, w3) \<Rightarrow> (Inr (Some output_path), w3))))"

text \<open>
  \<^verbatim>\<open>process_from_urls\<close>: the loop, with the number \<open>n\<close> of URLs, the index \<open>i\<close> of the item and the counter
  \<^verbatim>\<open>successful\<close> as accumulators. Nothing here catches an exception. The result is the
  pair of numbers of the final report.
\<close>

fun urls_loop ::
  "'w env \<Rightarrow> string \<Rightarrow> options \<Rightarrow> nat \<Rightarrow> string list \<Rightarrow> nat \<Rightarrow> nat \<Rightarrow> 'w
     \<Rightarrow> (exn + nat) \<times> 'w" where
  "urls_loop e output_folder opts n [] i successful w = (Inr successful, w)"
| "urls_loop e output_folder opts n (url # urls) i successful w =
     and_then (print e w (Item i n)) (\<lambda>u w1.
     and_then (process_from_url e output_folder w1 url opts) (\<lambda>r w2.
       urls_loop e output_folder opts n urls (i + 1)
         (case r of Some p \<Rightarrow> successful + 1 | None \<Rightarrow> successful) w2))"

definition process_from_urls ::
  "'w env \<Rightarrow> string \<Rightarrow> 'w \<Rightarrow> string list \<Rightarrow> options \<Rightarrow> (exn + nat \<times> nat) \<times> 'w" where
  "process_from_urls e output_folder w urls opts =
     and_then (print e w (Processing_images (length urls))) (\<lambda>u w1.
     and_then (urls_loop e output_folder opts (length urls) urls 1 0 w1) (\<lambda>successful w2.
     and_then (print e w2 (Completed successful (length urls))) (\<lambda>u w3.
     and_then (print e w3 (Output_folder (path_str output_folder))) (\<lambda>u w4.
       (Inr (successful, length urls), w4)))))"

text \<open>
  \<^verbatim>\<open>folder.glob("*" + ext)\<close>: the entries of the folder whose name ends with \<open>ext\<close>, in the
  order of the listing; the comparison ignores case where the platform's paths do.
\<close>

definition glob_ext :: "bool \<Rightarrow> string list \<Rightarrow> string \<Rightarrow> string list" where
  "glob_ext sensitive entries ext =
     filter (\<lambda>name. if sensitive then endswith name ext
                    else endswith (lower name) (lower ext)) entries"

text \<open>
  \<^verbatim>\<open>_get_images\<close>, on the names of the entries of the folder: two patterns for each
  extension, and a stable sort at the end. Paths of one folder compare as their names do,
  without regard to case where the platform's paths ignore it.
\<close>

definition get_images :: "bool \<Rightarrow> string list \<Rightarrow> string list" where
  "get_images sensitive entries =
     sort_key (\<lambda>name. if sensitive then name else lower name)
       (concat (map (\<lambda>ext. glob_ext sensitive entries ext
                           @ glob_ext sensitive entries (upper ext)) SUPPORTED_FORMATS))"

text \<open>
  Lines 98 to 109 of \<^verbatim>\<open>process_from_folder\<close>, the first part of the \<^verbatim>\<open>try\<close> block of the
  loop: from opening the file to the resized image.
\<close>

definition open_and_resize ::
  "'w env \<Rightarrow> 'w \<Rightarrow> string \<Rightarrow> options \<Rightarrow> (exn + image) \<times> 'w" where
  "open_and_resize e w img_path opts =
     and_then (open_file e w img_path, w) (\<lambda>img w1.
     and_then (print e w1 (Processing (path_name img_path))) (\<lambda>u w2.
     and_then (print e w2 (Original_size (im_size img))) (\<lambda>u w3.
     and_then (new_size_of img opts, w3) (\<lambda>new_size w4.
     and_then (print e w4 (New_size new_size)) (\<lambda>u w5.
     (resize e img new_size, w5))))))"

text \<open>
  Lines 132 and 133, the \<^verbatim>\<open>except\<close> clause of the loop: a line is printed and the loop
  goes on, unless that \<^verbatim>\<open>print\<close> raises. The flag says whether \<^verbatim>\<open>processed\<close> has been
  incremented.
\<close>

definition file_except ::
  "'w env \<Rightarrow> string \<Rightarrow> bool \<Rightarrow> exn \<Rightarrow> 'w \<Rightarrow> (exn + bool) \<times> 'w" where
  "file_except e name counted x w =
     and_then (print e w (File_failed name x)) (\<lambda>u w1. (Inr counted, w1))"

text \<open>
  One turn of the loop of \<^verbatim>\<open>process_from_folder\<close>. The counter is incremented after
  \<^verbatim>\<open>save\<close> and before the line that reports it.
\<close>

definition process_file ::
  "'w env \<Rightarrow> string \<Rightarrow> string \<Rightarrow> options \<Rightarrow> 'w \<Rightarrow> string \<Rightarrow> (exn + bool) \<times> 'w" where
  "process_file e output_folder input_folder opts w name =
     (let img_path = path_join input_folder name in
      case open_and_resize e w img_path opts of
        (Inl x, w1) \<Rightarrow> file_except e (path_name img_path) False x w1
      | (Inr resized, w1) \<Rightarrow>
          (let output_path = folder_output_path output_folder img_path opts;
               (saved, kwargs) = save_settings resized (output_format opts) (quality opts)
           in case save e w1 output_path saved kwargs of
                (Inl x, w2) \<Rightarrow> file_except e (path_name img_path) False x w2
              | (Inr u, w2) \<Rightarrow>
                  (case print e w2 (Saved output_path) of
                     (Inl x, w3) \<Rightarrow> file_except e (path_name img_path) True x w3
                   | (Inr u, w3) \<Rightarrow> (Inr True, w3))))"

fun folder_loop ::
  "'w env \<Rightarrow> string \<Rightarrow> string \<Rightarrow> options \<Rightarrow> string list \<Rightarrow> nat \<Rightarrow> 'w
     \<Rightarrow> (exn + nat) \<times> 'w" where
  "folder_loop e output_folder input_folder opts [] processed w = (Inr processed, w)"
| "folder_loop e output_folder input_folder opts (name # names) processed w =
     and_then (process_file e output_folder input_folder opts w name) (\<lambda>counted w1.
       folder_loop e output_folder input_folder opts names
         (if counted then processed + 1 else processed) w1)"

text \<open>
  \<^verbatim>\<open>process_from_folder\<close>: \<open>None\<close> is the report that no image was found, otherwise the
  pair of numbers of the final report.
\<close>

definition process_from_folder ::
  "'w env \<Rightarrow> string \<Rightarrow> 'w \<Rightarrow> string \<Rightarrow> options \<Rightarrow> (exn + (nat \<times> nat) option) \<times> 'w"
where
  "process_from_folder e output_folder w input_folder opts =
     (let images = get_images (case_sensitive e) (listdir e w input_folder)
      in if images = []
         then and_then (print e w (No_images (path_str input_folder))) (\<lambda>u w1. (Inr None, w1))
         else
           and_then (print e w (Found_images (length images))) (\<lambda>u w1.
           and_then (folder_loop e output_folder input_folder opts images 0 w1) (\<lambda>processed w2.
           and_then (print e w2 (Completed processed (length images))) (\<lambda>u w3.
           and_then (print e w3 (Output_folder (path_str output_folder))) (\<lambda>u w4.
             (Inr (Some (processed, length images)), w4))))))"

text \<open>A standard output that takes every line.\<close>

definition prints_succeed :: "'w env \<Rightarrow> bool" where
  "prints_succeed e = (\<forall>w m. fst (print e w m) = Inr ())"

text \<open>
  Two small worlds for the concrete instances of the theorems below. The state is the
  list of the files saved so far, each with its path, its image and the arguments of
  \<^verbatim>\<open>save\<close>. One URL cannot be fetched, one is served with an empty body, which does not
  decode, an image cannot be resampled to an empty size, and one output path cannot be
  written; everything else succeeds, and every image is decoded as an RGBA image of size
  \<open>(1000, 500)\<close>. In the first world the standard output takes every line; in the second
  it is an ASCII stream, which raises on the four lines that start with a check mark or a
  ballot cross.
\<close>

definition example_env :: "(string \<times> image \<times> save_kwargs) list env" where
  "example_env =
     \<lparr>print = (\<lambda>w m. (Inr (), w)),
      http_get = (\<lambda>w url. (if url = ''http://host/missing.png'' then Inl RequestException
                            else if url = ''http://host/empty.png'' then Inr []
                            else Inr [137, 80, 78, 71], w)),
      image_open = (\<lambda>content. if content = [] then Inl Library_Exception
                      else Inr \<lparr>mode = ''RGBA'', im_size = (1000, 500),
                                 im_data = Decoded content\<rparr>),
      resize = (\<lambda>img new_size. if fst new_size \<le> 0 \<or> snd new_size \<le> 0
                                then Inl Library_Exception
                                else Inr (img\<lparr>im_size := new_size,
                                               im_data := Resampled (im_data img) new_size\<rparr>)),
      save = (\<lambda>w path img kwargs. if path = ''out/locked.png'' then (Inl Library_Exception, w)
                                   else (Inr (), w @ [(path, img, kwargs)])),
      listdir = (\<lambda>w folder. [''b.png'', ''a.jpg'']),
      open_file = (\<lambda>w path. Inr \<lparr>mode = ''RGBA'', im_size = (1000, 500),
                                    im_data = Decoded [137, 80, 78, 71]\<rparr>),
      case_sensitive = True\<rparr>"

definition ascii_env :: "(string \<times> image \<times> save_kwargs) list env" where
  "ascii_env =
     example_env
       \<lparr>print := (\<lambda>w m. (case m of
                             Saved p \<Rightarrow> Inl UnicodeEncodeError
                           | Download_failed x \<Rightarrow> Inl UnicodeEncodeError
                           | Process_failed x \<Rightarrow> Inl UnicodeEncodeError
                           | File_failed n x \<Rightarrow> Inl UnicodeEncodeError
                           | _ \<Rightarrow> Inr (), w))\<rparr>"

definition example_options :: options where
  "example_options =
     \<lparr>width = Some 800, height = None, scale = None, maintain_aspect = True,
      output_format = Some ''JPG'', quality = 90, filename = None\<rparr>"

section \<open>The documented input domain and the sizing policies\<close>

text \<open>
  The documented domain of the sizing arguments: a width and a height, when given, are
  positive integers, and a scale, when given, is a positive number.
\<close>

definition positive_int :: "int option \<Rightarrow> bool" where
  "positive_int v = (case v of None \<Rightarrow> True | Some n \<Rightarrow> 0 < n)"

fun positive_scale :: "pynum option \<Rightarrow> bool" where
  "positive_scale None = True"
| "positive_scale (Some (PyInt k)) = (0 < k)"
| "positive_scale (Some (PyFloat (Finite x))) = (0 < x)"
| "positive_scale (Some (PyFloat f)) = False"




text \<open>
  The sizing policies as the specification lists them: the policy in effect is chosen by
  which arguments are supplied, in the order scale, width and height, width, height,
  nothing; each policy has its own formula.
\<close>

datatype policy = By_scale pynum | By_box int int | By_width int | By_height int | Unchanged

fun effective_policy :: "pynum option \<Rightarrow> int option \<Rightarrow> int option \<Rightarrow> policy" where
  "effective_policy (Some s) W H = By_scale s"
| "effective_policy None (Some W) (Some H) = By_box W H"
| "effective_policy None (Some W) None = By_width W"
| "effective_policy None None (Some H) = By_height H"
| "effective_policy None None None = Unchanged"

fun apply_policy :: "policy \<Rightarrow> int \<times> int \<Rightarrow> bool \<Rightarrow> pyerror + int \<times> int" where
  "apply_policy (By_scale s) (w, h) m = scaled_pair w h s"
| "apply_policy (By_box W H) (w, h) m =
     (if m then
        (case int_truediv W w of
           Inl e \<Rightarrow> Inl e
         | Inr rw \<Rightarrow>
             (case int_truediv H h of
                Inl e \<Rightarrow> Inl e
              | Inr rh \<Rightarrow> scaled_pair w h (PyFloat (Finite (min rw rh)))))
      else Inr (W, H))"
| "apply_policy (By_width W) (w, h) m =
     (case int_truediv W w of
        Inl e \<Rightarrow> Inl e
      | Inr ratio \<Rightarrow>
          (case scaled h (PyFloat (Finite ratio)) of
             Inl e \<Rightarrow> Inl e
           | Inr b \<Rightarrow> Inr (W, b)))"
| "apply_policy (By_height H) (w, h) m =
     (case int_truediv H h of
        Inl e \<Rightarrow> Inl e
      | Inr ratio \<Rightarrow>
          (case scaled w (PyFloat (Finite ratio)) of
             Inl e \<Rightarrow> Inl e
           | Inr a \<Rightarrow> Inr (a, H)))"
| "apply_policy Unchanged (w, h) m = Inr (w, h)"

section \<open>Rounding to binary64\<close>

lemma pow2_power_int: "pow2 k = power_int 2 k"
  by (simp add: pow2_def power_int_def inverse_eq_divide power_one_over)

lemma pow2_pos: "0 < pow2 k"
  by (simp add: pow2_def)

lemma pow2_add: "pow2 (a + b) = pow2 a * pow2 b"
  by (simp add: pow2_power_int power_int_add)

lemma pow2_mono: "a \<le> b \<Longrightarrow> pow2 a \<le> pow2 b"
  by (simp add: pow2_power_int power_int_increasing)

lemma pow2_less_cancel: "pow2 a < pow2 b \<Longrightarrow> a < b"
  using pow2_mono [of b a] by (cases "a < b") auto

lemma pow2_nat: "pow2 (int n) = 2 ^ n"
  by (simp add: pow2_def)

lemma pow2_neg_nat: "pow2 (- int n) = 1 / 2 ^ n"
  by (simp add: pow2_power_int power_int_minus inverse_eq_divide)

lemma ilog2_bounds:
  assumes "0 < x"
  shows "pow2 (ilog2 x) \<le> x \<and> x < pow2 (ilog2 x + 1)"
proof (cases "1 \<le> x")
  case True
  define n where "n = nat \<lfloor>x\<rfloor>"
  define b where "b = floorlog 2 n"
  from True have n1: "0 < n" by (simp add: n_def)
  have fb: "2 ^ (b - 1) \<le> n \<and> n < 2 ^ b"
    unfolding b_def using floorlog_bounds [of n 2] n1 by simp
  have b1: "1 \<le> b" using n1 by (simp add: b_def floorlog_def)
  have il: "ilog2 x = int (b - 1)"
    using True b1 by (simp add: ilog2_def b_def n_def)
  have nx: "rat_of_nat n \<le> x" "x < rat_of_nat n + 1"
    using True by (simp_all add: n_def) linarith+
  have "pow2 (ilog2 x) = rat_of_nat (2 ^ (b - 1))" by (simp add: il pow2_nat)
  also have "\<dots> \<le> rat_of_nat n" using fb by (simp only: of_nat_le_iff)
  finally have lo: "pow2 (ilog2 x) \<le> x" using nx by simp
  have "ilog2 x + 1 = int b" using il b1 by simp
  then have "pow2 (ilog2 x + 1) = rat_of_nat (2 ^ b)" by (simp add: pow2_nat)
  moreover have "rat_of_nat (n + 1) \<le> rat_of_nat (2 ^ b)"
    using fb by (simp only: of_nat_le_iff) simp
  ultimately have "x < pow2 (ilog2 x + 1)" using nx by simp
  with lo show ?thesis by simp
next
  case False
  define y where "y = 1 / x"
  define m where "m = nat (\<lceil>y\<rceil> - 1)"
  define k where "k = floorlog 2 m"
  from False assms have y1: "1 < y" by (simp add: y_def)
  then have c2: "2 \<le> \<lceil>y\<rceil>" by linarith
  then have m1: "0 < m" by (simp add: m_def)
  have fb: "2 ^ (k - 1) \<le> m \<and> m < 2 ^ k"
    unfolding k_def using floorlog_bounds [of m 2] m1 by simp
  have k1: "1 \<le> k" using m1 by (simp add: k_def floorlog_def)
  have il: "ilog2 x = - int k"
    using False by (simp add: ilog2_def k_def m_def y_def)
  have my: "rat_of_nat m < y" "y \<le> rat_of_nat m + 1"
    using c2 by (simp_all add: m_def) linarith+
  have "rat_of_nat (m + 1) \<le> rat_of_nat (2 ^ k)"
    using fb by (simp only: of_nat_le_iff) simp
  then have "y \<le> 2 ^ k" using my by simp
  then have "1 / 2 ^ k \<le> x" using assms by (simp add: y_def field_simps)
  then have lo: "pow2 (ilog2 x) \<le> x" by (simp add: il pow2_neg_nat)
  have "rat_of_nat (2 ^ (k - 1)) \<le> rat_of_nat m" using fb by (simp only: of_nat_le_iff)
  moreover have "rat_of_nat (2 ^ (k - 1)) = 2 ^ (k - 1)" by simp
  ultimately have "2 ^ (k - 1) < y" using my by linarith
  then have "x < 1 / 2 ^ (k - 1)" using assms by (simp add: y_def field_simps)
  moreover have "ilog2 x + 1 = - int (k - 1)" using il k1 by simp
  ultimately have "x < pow2 (ilog2 x + 1)" by (simp add: pow2_neg_nat)
  with lo show ?thesis by simp
qed

lemma round_half_even_error: "\<bar>of_int (round_half_even x) - x\<bar> \<le> 1 / 2"
proof -
  have "of_int \<lfloor>x\<rfloor> \<le> x" "x < of_int \<lfloor>x\<rfloor> + 1" by linarith+
  then show ?thesis
    by (auto simp: round_half_even_def Let_def)
qed

lemma round_half_even_of_int: "round_half_even (of_int n) = n"
  by (simp add: round_half_even_def)

lemma round_half_even_nonneg: "0 \<le> x \<Longrightarrow> 0 \<le> round_half_even x"
  by (auto simp: round_half_even_def Let_def)

lemma quantum_pos: "0 < quantum x"
  by (simp add: quantum_def pow2_pos)

lemma round_double_error: "\<bar>round_double x - x\<bar> \<le> quantum x / 2"
proof (cases "x = 0")
  case True
  then show ?thesis using quantum_pos [of x] by (simp add: round_double_def)
next
  case False
  define q where "q = quantum x"
  have q: "0 < q" by (simp add: q_def quantum_pos)
  have "\<bar>of_int (round_half_even (x / q)) - x / q\<bar> \<le> 1 / 2"
    by (rule round_half_even_error)
  then have "\<bar>of_int (round_half_even (x / q)) - x / q\<bar> * q \<le> 1 / 2 * q"
    using q by (simp only: mult_le_cancel_right) simp
  moreover have "\<bar>of_int (round_half_even (x / q)) - x / q\<bar> * q
      = \<bar>of_int (round_half_even (x / q)) * q - x\<bar>"
  proof -
    have "\<bar>of_int (round_half_even (x / q)) - x / q\<bar> * q
        = \<bar>(of_int (round_half_even (x / q)) - x / q) * q\<bar>"
      using q by (simp add: abs_mult)
    also have "(of_int (round_half_even (x / q)) - x / q) * q
        = of_int (round_half_even (x / q)) * q - x"
      using q by (simp add: left_diff_distrib)
    finally show ?thesis .
  qed
  ultimately show ?thesis
    using False by (simp add: round_double_def q_def)
qed

lemma round_double_nonneg: "0 \<le> x \<Longrightarrow> 0 \<le> round_double x"
  using quantum_pos [of x] round_half_even_nonneg [of "x / quantum x"]
  by (simp add: round_double_def)

lemma quantum_le:
  assumes "x \<noteq> 0" "\<bar>x\<bar> < pow2 k" "- 1021 \<le> k"
  shows "quantum x \<le> pow2 (k - 53)"
proof -
  have "pow2 (ilog2 \<bar>x\<bar>) \<le> \<bar>x\<bar>" using ilog2_bounds [of "\<bar>x\<bar>"] assms(1) by simp
  with assms(2) have "pow2 (ilog2 \<bar>x\<bar>) < pow2 k" by simp
  then have "ilog2 \<bar>x\<bar> < k" by (rule pow2_less_cancel)
  with assms(3) have "max (ilog2 \<bar>x\<bar>) (- 1022) - 52 \<le> k - 53" by simp
  then show ?thesis unfolding quantum_def by (rule pow2_mono)
qed

lemma quantum_rel:
  assumes "pow2 (- 1022) \<le> \<bar>x\<bar>"
  shows "quantum x \<le> \<bar>x\<bar> * pow2 (- 52)"
proof -
  have x: "0 < \<bar>x\<bar>" using assms pow2_pos [of "- 1022"] by linarith
  have lo: "pow2 (ilog2 \<bar>x\<bar>) \<le> \<bar>x\<bar>" using ilog2_bounds [of "\<bar>x\<bar>"] x by simp
  have "\<bar>x\<bar> < pow2 (ilog2 \<bar>x\<bar> + 1)" using ilog2_bounds [of "\<bar>x\<bar>"] x by simp
  with assms have "pow2 (- 1022) < pow2 (ilog2 \<bar>x\<bar> + 1)" by simp
  then have "- 1022 < ilog2 \<bar>x\<bar> + 1" by (rule pow2_less_cancel)
  then have "max (ilog2 \<bar>x\<bar>) (- 1022) = ilog2 \<bar>x\<bar>" by simp
  then have "quantum x = pow2 (ilog2 \<bar>x\<bar>) * pow2 (- 52)"
    by (simp add: quantum_def pow2_add [symmetric])
  also have "\<dots> \<le> \<bar>x\<bar> * pow2 (- 52)"
    using lo pow2_pos [of "- 52"] by (simp only: mult_le_cancel_right) simp
  finally show ?thesis .
qed

lemma round_double_of_int:
  assumes "\<bar>n\<bar> < 2 ^ 53"
  shows "round_double (of_int n) = of_int n"
proof (cases "n = 0")
  case True
  then show ?thesis by (simp add: round_double_def)
next
  case False
  define x :: rat where "x = of_int n"
  define e where "e = ilog2 \<bar>x\<bar>"
  have x1: "1 \<le> \<bar>x\<bar>" using False by (simp add: x_def flip: of_int_abs)
  then have x0: "0 < \<bar>x\<bar>" by linarith
  have xlt: "\<bar>x\<bar> < pow2 53"
    using assms unfolding x_def pow2_def by (simp flip: of_int_abs)
  have "pow2 (ilog2 \<bar>x\<bar>) \<le> \<bar>x\<bar>" using ilog2_bounds [of "\<bar>x\<bar>"] x0 by simp
  with xlt have "pow2 e < pow2 53" by (simp add: e_def)
  then have e53: "e < 53" by (rule pow2_less_cancel)
  have "pow2 0 \<le> \<bar>x\<bar>" using x1 by (simp add: pow2_def)
  moreover have "\<bar>x\<bar> < pow2 (e + 1)" using ilog2_bounds [of "\<bar>x\<bar>"] x0 by (simp add: e_def)
  ultimately have "pow2 0 < pow2 (e + 1)" by simp
  then have e0: "0 \<le> e" using pow2_less_cancel [of 0 "e + 1"] by simp
  define j where "j = nat (52 - e)"
  have q: "quantum x = 1 / 2 ^ j"
  proof -
    have "max e (- 1022) - 52 = - int j" using e0 e53 by (simp add: j_def)
    then show ?thesis by (simp add: quantum_def e_def [symmetric] pow2_neg_nat)
  qed
  have "x / quantum x = of_int (n * 2 ^ j)" unfolding q by (simp add: x_def)
  then have "round_half_even (x / quantum x) = n * 2 ^ j"
    by (simp only: round_half_even_of_int)
  moreover have "x \<noteq> 0" using x0 by simp
  ultimately have "round_double x = of_int (n * 2 ^ j) * (1 / 2 ^ j)"
    unfolding round_double_def q by simp
  then show ?thesis by (simp add: x_def)
qed

lemma to_double_finite:
  assumes "\<bar>x\<bar> < pow2 1023"
  shows "to_double x = Finite (round_double x)"
proof (cases "x = 0")
  case True
  then show ?thesis using pow2_pos [of 1024] by (simp add: to_double_def round_double_def)
next
  case False
  have "quantum x \<le> pow2 (1023 - 53)" using False assms by (rule quantum_le) simp
  also have "\<dots> \<le> pow2 1023" by (rule pow2_mono) simp
  finally have q: "quantum x / 2 < pow2 1023" using pow2_pos [of 1023] by simp
  have "\<bar>round_double x\<bar> \<le> \<bar>x\<bar> + quantum x / 2"
    using round_double_error [of x] by linarith
  also have "\<dots> < pow2 1023 + pow2 1023" using assms q by linarith
  also have "\<dots> = pow2 1024" by (simp add: pow2_def)
  finally have "\<bar>round_double x\<bar> < pow2 1024" .
  then show ?thesis by (auto simp: to_double_def Let_def)
qed

section \<open>Arithmetic of the size calculator\<close>

lemma float_of_int_exact: "\<bar>n\<bar> < 2 ^ 53 \<Longrightarrow> float_of_int n = Inr (Finite (of_int n))"
proof -
  assume n: "\<bar>n\<bar> < 2 ^ 53"
  then have "\<bar>rat_of_int n\<bar> < 2 ^ 53"
    by (simp flip: of_int_abs add: of_int_less_numeral_power_cancel_iff)
  also have "(2::rat) ^ 53 \<le> pow2 1023" using pow2_mono [of 53 1023] by (simp add: pow2_def)
  finally have "to_double (of_int n) = Finite (round_double (of_int n))"
    by (rule to_double_finite)
  then show ?thesis using n by (simp add: float_of_int_def round_double_of_int)
qed

lemma scaled_float:
  assumes "\<bar>n\<bar> < 2 ^ 53" "\<bar>of_int n * r\<bar> < pow2 1023"
  shows "scaled n (PyFloat (Finite r)) = Inr (trunc (round_double (of_int n * r)))"
  using assms by (simp add: scaled_def float_of_int_exact to_double_finite)

lemma scaled_int: "scaled n (PyInt k) = Inr (n * k)"
  by (simp add: scaled_def)

lemma round_double_rel:
  assumes "pow2 (- 1022) \<le> \<bar>x\<bar>"
  shows "\<bar>round_double x - x\<bar> \<le> \<bar>x\<bar> / 2 ^ 53"
proof -
  have "\<bar>round_double x - x\<bar> \<le> quantum x / 2" by (rule round_double_error)
  also have "quantum x / 2 \<le> (\<bar>x\<bar> * pow2 (- 52)) / 2"
    using quantum_rel [OF assms] by simp
  also have "\<dots> = \<bar>x\<bar> / 2 ^ 53" by (simp add: pow2_def)
  finally show ?thesis .
qed

lemma int_truediv_close:
  assumes "0 < a" "a < 2 ^ 52" "0 < b" "b < 2 ^ 52"
  shows "\<exists>q. int_truediv a b = Inr q
           \<and> \<bar>q - of_int a / of_int b\<bar> \<le> (of_int a / of_int b) / 2 ^ 53"
proof -
  define x :: rat where "x = of_int a / of_int b"
  have a1: "(1::rat) \<le> of_int a" using assms(1) by simp
  have a2: "rat_of_int a < 2 ^ 52" using assms(2) by (simp add: of_int_less_numeral_power_cancel_iff)
  have b1: "(1::rat) \<le> of_int b" using assms(3) by simp
  have b2: "rat_of_int b < 2 ^ 52" using assms(4) by (simp add: of_int_less_numeral_power_cancel_iff)
  have xpos: "0 < x" using a1 b1 by (simp add: x_def)
  have "x \<le> of_int a" using a1 b1 by (simp add: x_def field_simps) 
  then have xhi: "x < 2 ^ 52" using a2 by simp
  have "1 / 2 ^ 52 < 1 / rat_of_int b" using b1 b2 by (simp add: field_simps)
  also have "\<dots> \<le> x" using a1 b1 by (simp add: x_def field_simps)
  finally have xlo: "1 / 2 ^ 52 < x" .
  have "pow2 (- 1022) \<le> pow2 (- 52)" by (rule pow2_mono) simp
  also have "pow2 (- 52) = 1 / 2 ^ 52" by (simp add: pow2_def)
  finally have lo: "pow2 (- 1022) \<le> \<bar>x\<bar>" using xlo by simp
  have "(2::rat) ^ 52 \<le> pow2 1023" using pow2_mono [of 52 1023] by (simp add: pow2_def)
  then have "\<bar>x\<bar> < pow2 1023" using xhi xpos by simp
  then have fin: "to_double x = Finite (round_double x)" by (rule to_double_finite)
  have "b \<noteq> 0" using assms(3) by simp
  then have "int_truediv a b = Inr (round_double x)"
    using fin by (simp add: int_truediv_def x_def)
  moreover have "\<bar>round_double x - x\<bar> \<le> x / 2 ^ 53"
    using round_double_rel [OF lo] xpos by simp
  ultimately show ?thesis unfolding x_def by blast
qed

lemma trunc_nonneg: "0 \<le> x \<Longrightarrow> trunc x = \<lfloor>x\<rfloor>"
  by (simp add: trunc_def)

lemma scaled_close:
  assumes "0 \<le> n" "n < 2 ^ 53" "0 \<le> r" "of_int n * r < 2 ^ 52"
  shows "\<exists>k. scaled n (PyFloat (Finite r)) = Inr k
           \<and> of_int n * r - 5 / 4 < of_int k \<and> of_int k \<le> of_int n * r + 1 / 4 \<and> 0 \<le> k"
proof -
  define x :: rat where "x = of_int n * r"
  define y where "y = round_double x"
  have x0: "0 \<le> x" using assms(1,3) by (simp add: x_def)
  have xhi: "x < 2 ^ 52" using assms(4) by (simp add: x_def)
  have "(2::rat) ^ 52 \<le> pow2 1023" using pow2_mono [of 52 1023] by (simp add: pow2_def)
  then have big: "\<bar>of_int n * r\<bar> < pow2 1023" using x0 xhi by (simp add: x_def)
  have "\<bar>n\<bar> < 2 ^ 53" using assms(1,2) by simp
  then have sc: "scaled n (PyFloat (Finite r)) = Inr (trunc y)"
    using big by (simp add: scaled_float y_def x_def)
  have err: "\<bar>y - x\<bar> \<le> 1 / 4"
  proof (cases "x = 0")
    case True
    then show ?thesis by (simp add: y_def round_double_def)
  next
    case False
    have "\<bar>x\<bar> < pow2 52" using x0 xhi by (simp add: pow2_def)
    with False have "quantum x \<le> pow2 (52 - 53)" by (rule quantum_le) simp
    then have "quantum x \<le> 1 / 2" by (simp add: pow2_def)
    then show ?thesis using round_double_error [of x] by (simp add: y_def)
  qed
  have y0: "0 \<le> y" unfolding y_def using x0 by (rule round_double_nonneg)
  then have t: "trunc y = \<lfloor>y\<rfloor>" by (rule trunc_nonneg)
  have fl: "of_int \<lfloor>y\<rfloor> \<le> y" "y < of_int \<lfloor>y\<rfloor> + 1" by linarith+
  have "x - 5 / 4 < of_int \<lfloor>y\<rfloor>" using err fl by linarith
  moreover have "of_int \<lfloor>y\<rfloor> \<le> x + 1 / 4" using err fl by linarith
  moreover have "0 \<le> \<lfloor>y\<rfloor>" using y0 by simp
  ultimately show ?thesis using sc t unfolding x_def by auto
qed





lemma scaled_ok:
  assumes "0 \<le> n" "n < 2 ^ 53" "0 \<le> r" "r < 2 ^ 960"
  shows "scaled n (PyFloat (Finite r)) = Inr \<lfloor>round_double (of_int n * r)\<rfloor>"
proof -
  have n: "(0::rat) \<le> of_int n" "rat_of_int n < 2 ^ 53"
    using assms(1,2) by (simp_all add: of_int_less_numeral_power_cancel_iff)
  have x0: "0 \<le> of_int n * r" using n(1) assms(3) by simp
  have "of_int n * r \<le> 2 ^ 53 * r" using n(2) assms(3) by (simp add: mult_right_mono)
  also have "\<dots> < 2 ^ 53 * 2 ^ 960" using assms(4) by simp
  also have "\<dots> = pow2 1013" by (simp add: pow2_def)
  also have "\<dots> \<le> pow2 1023" by (rule pow2_mono) simp
  finally have "\<bar>of_int n * r\<bar> < pow2 1023" using x0 by simp
  moreover have "\<bar>n\<bar> < 2 ^ 53" using assms(1,2) by simp
  ultimately have "scaled n (PyFloat (Finite r)) = Inr (trunc (round_double (of_int n * r)))"
    by (simp add: scaled_float)
  moreover have "0 \<le> round_double (of_int n * r)" using x0 by (rule round_double_nonneg)
  ultimately show ?thesis by (simp add: trunc_nonneg)
qed


lemma axis_fit:
  assumes n: "0 < n" "n < 2 ^ 52" and N: "0 < N" "N < 2 ^ 52"
    and r: "0 \<le> r" and rho: "0 < \<rho>" "\<rho> \<le> of_int N / of_int n"
    and close: "\<bar>r - \<rho>\<bar> \<le> \<rho> / 2 ^ 53"
  shows "\<exists>k. scaled n (PyFloat (Finite r)) = Inr k \<and> 0 \<le> k \<and> k \<le> N
           \<and> \<bar>of_int k - of_int n * \<rho>\<bar> < 2
           \<and> (\<rho> = of_int N / of_int n \<longrightarrow> N - 1 \<le> k)"
proof -
  define t :: rat where "t = of_int n * \<rho>"
  define x :: rat where "x = of_int n * r"
  have n0: "(0::rat) < of_int n" using n(1) by simp
  have "N \<le> 2 ^ 52 - 1" using N(2) by simp
  then have "rat_of_int N \<le> of_int (2 ^ 52 - 1)" by (simp only: of_int_le_iff)
  then have Nhi: "rat_of_int N \<le> 2 ^ 52 - 1" by simp
  have "t \<le> of_int n * (of_int N / of_int n)"
    unfolding t_def using rho(2) n0 by (simp only: mult_le_cancel_left_pos)
  then have tN: "t \<le> of_int N" using n0 by simp
  have t0: "0 < t" using n0 rho(1) by (simp add: t_def)
  have "\<bar>x - t\<bar> = of_int n * \<bar>r - \<rho>\<bar>"
    using n0 by (simp add: x_def t_def abs_mult flip: right_diff_distrib)
  also have "\<dots> \<le> of_int n * (\<rho> / 2 ^ 53)"
    using close n0 by (simp only: mult_le_cancel_left_pos)
  also have "\<dots> = t / 2 ^ 53" by (simp add: t_def)
  finally have xt: "\<bar>x - t\<bar> \<le> t / 2 ^ 53" .
  have tu: "t / 2 ^ 53 < 1 / 2" using tN Nhi by simp
  have xhi: "x < 2 ^ 52" using xt tu tN Nhi by linarith
  have "n < 2 ^ 53" using n(2) by simp
  moreover have "0 \<le> n" using n(1) by simp
  ultimately obtain k where k: "scaled n (PyFloat (Finite r)) = Inr k"
      "of_int n * r - 5 / 4 < of_int k" "of_int k \<le> of_int n * r + 1 / 4" "0 \<le> k"
    using scaled_close [of n r] r xhi unfolding x_def by blast
  have up: "rat_of_int k < of_int N + 1" using k(3) xt tu tN unfolding x_def by linarith
  then have "rat_of_int k < of_int (N + 1)" by simp
  then have kN: "k \<le> N" by (simp only: of_int_less_iff zle_add1_eq_le [symmetric])
  have lo: "t - 7 / 4 < of_int k" using k(2) xt tu unfolding x_def by linarith
  have "t - 2 < of_int k" "rat_of_int k < t + 1" using lo k(3) xt tu unfolding x_def by linarith+
  then have dist: "\<bar>of_int k - t\<bar> < 2" by linarith
  have att: "N - 1 \<le> k" if "\<rho> = of_int N / of_int n"
  proof -
    have "t = of_int N" using that n0 by (simp add: t_def)
    then have "rat_of_int (N - 2) < of_int k" using lo by simp
    then have "N - 2 < k" by (simp only: of_int_less_iff)
    then show ?thesis by simp
  qed
  show ?thesis using k(1,4) kN dist att unfolding t_def by blast
qed

lemma min_close:
  fixes a b qa qb :: rat
  assumes "0 < a" "0 < b" "\<bar>qa - a\<bar> \<le> a / 2 ^ 53" "\<bar>qb - b\<bar> \<le> b / 2 ^ 53"
  shows "\<bar>min qa qb - min a b\<bar> \<le> min a b / 2 ^ 53 \<and> 0 \<le> min qa qb"
proof -
  define c where "c = a / 2 ^ 53"
  define d where "d = b / 2 ^ 53"
  have c: "0 < c" "c \<le> a" and d: "0 < d" "d \<le> b"
    using assms(1,2) by (simp_all add: c_def d_def)
  have qa: "\<bar>qa - a\<bar> \<le> c" and qb: "\<bar>qb - b\<bar> \<le> d"
    using assms(3,4) by (simp_all add: c_def d_def)
  have m: "min a b / 2 ^ 53 = min c d"
    by (simp add: c_def d_def min_def)
  have "\<bar>min qa qb - min a b\<bar> \<le> min c d"
  proof (cases "a \<le> b")
    case True
    then have "c \<le> d" "a - c \<le> b - d" by (simp_all add: c_def d_def)
    then show ?thesis using True c d qa qb by linarith
  next
    case False
    then have "d \<le> c" "b - d \<le> a - c" by (simp_all add: c_def d_def)
    then show ?thesis using False c d qa qb by linarith
  qed
  moreover have "0 \<le> min qa qb"
    using c d qa qb by linarith
  ultimately show ?thesis by (simp only: m)
qed

text \<open>Rules that evaluate the model at concrete numbers.\<close>

lemma floor_rat_divide_numeral:
  "\<lfloor>numeral a / numeral b :: rat\<rfloor> = numeral a div numeral b"
  by (metis floor_divide_of_int_eq of_int_numeral)

lemma floor_rat_one_divide_numeral:
  "\<lfloor>1 / numeral b :: rat\<rfloor> = 1 div numeral b"
  by (metis floor_divide_of_int_eq of_int_1 of_int_numeral)

lemma ceiling_rat_divide_numeral:
  "\<lceil>numeral a / numeral b :: rat\<rceil> = - (- numeral a div numeral b)"
  using ceiling_divide_eq_div [of "numeral a" "numeral b", where ?'a = rat] by simp

lemma ceiling_rat_one_divide_numeral:
  "\<lceil>1 / numeral b :: rat\<rceil> = - (- 1 div numeral b)"
  using ceiling_divide_eq_div [of 1 "numeral b", where ?'a = rat] by simp

lemmas float_eval = calculate_size_def int_truediv_def to_double_def round_double_def quantum_def
  ilog2_def pow2_def round_half_even_def scaled_pair_def scaled_def float_of_int_def trunc_def
  compute_floorlog Let_def floor_rat_divide_numeral floor_rat_one_divide_numeral
  ceiling_rat_divide_numeral ceiling_rat_one_divide_numeral

section \<open>The branches of the size calculator\<close>

lemma calc_scale:
  "truthy s \<Longrightarrow> calculate_size (w, h) W H (Some s) m = scaled_pair w h s"
  by (simp add: calculate_size_def)

lemma calc_box_aspect:
  "W \<noteq> 0 \<Longrightarrow> H \<noteq> 0 \<Longrightarrow>
   calculate_size (w, h) (Some W) (Some H) None True =
     (case int_truediv W w of
        Inl e \<Rightarrow> Inl e
      | Inr rw \<Rightarrow>
          (case int_truediv H h of
             Inl e \<Rightarrow> Inl e
           | Inr rh \<Rightarrow> scaled_pair w h (PyFloat (Finite (min rw rh)))))"
  by (simp add: calculate_size_def)

lemma calc_box_exact:
  "W \<noteq> 0 \<Longrightarrow> H \<noteq> 0 \<Longrightarrow> calculate_size (w, h) (Some W) (Some H) None False = Inr (W, H)"
  by (simp add: calculate_size_def)

lemma calc_width:
  "W \<noteq> 0 \<Longrightarrow>
   calculate_size (w, h) (Some W) None None m =
     (case int_truediv W w of
        Inl e \<Rightarrow> Inl e
      | Inr ratio \<Rightarrow>
          (case scaled h (PyFloat (Finite ratio)) of
             Inl e \<Rightarrow> Inl e
           | Inr b \<Rightarrow> Inr (W, b)))"
  by (simp add: calculate_size_def)

lemma calc_height:
  "H \<noteq> 0 \<Longrightarrow>
   calculate_size (w, h) None (Some H) None m =
     (case int_truediv H h of
        Inl e \<Rightarrow> Inl e
      | Inr ratio \<Rightarrow>
          (case scaled w (PyFloat (Finite ratio)) of
             Inl e \<Rightarrow> Inl e
           | Inr a \<Rightarrow> Inr (a, H)))"
  by (simp add: calculate_size_def)

lemma calc_none: "calculate_size sz None None None m = Inr sz"
  by (cases sz) (simp add: calculate_size_def)

lemma positive_scale_truthy: "positive_scale (Some v) \<Longrightarrow> truthy v"
proof (cases v)
  case (PyInt k)
  assume "positive_scale (Some v)"
  then show ?thesis using PyInt by simp
next
  case (PyFloat f)
  assume "positive_scale (Some v)"
  then show ?thesis using PyFloat by (cases f) simp_all
qed











section \<open>The claims about the size calculator\<close>

text \<open>
  Claim C1, as amended. For an original size \<open>(w, h)\<close> of positive integers below \<open>2 ^ 53\<close>
  and a float scale \<open>x\<close> with \<open>0 < x < 2 ^ 960\<close>, the size calculator returns the two float
  products \<open>w * x\<close> and \<open>h * x\<close> (the exact products rounded to binary64), each truncated
  to an integer, not rounded to the nearest one; for a positive integer scale \<open>k\<close> it
  returns \<open>(w * k, h * k)\<close>. The result does not depend on the flag \<^verbatim>\<open>maintain_aspect\<close>,
  nor on the width and height arguments.
\<close>

theorem calculate_size_scale_truncates:
  assumes "0 < w" "w < 2 ^ 53" "0 < h" "h < 2 ^ 53"
  shows "(0 < x \<and> x < 2 ^ 960 \<longrightarrow>
            calculate_size (w, h) W H (Some (PyFloat (Finite x))) m
              = Inr (\<lfloor>round_double (of_int w * x)\<rfloor>, \<lfloor>round_double (of_int h * x)\<rfloor>))
       \<and> (0 < k \<longrightarrow> calculate_size (w, h) W H (Some (PyInt k)) m = Inr (w * k, h * k))"
proof -
  have "calculate_size (w, h) W H (Some (PyFloat (Finite x))) m
              = Inr (\<lfloor>round_double (of_int w * x)\<rfloor>, \<lfloor>round_double (of_int h * x)\<rfloor>)"
    if x0: "0 < x" and x1: "x < 2 ^ 960"
  proof -
    have "scaled w (PyFloat (Finite x)) = Inr \<lfloor>round_double (of_int w * x)\<rfloor>"
      using assms(1,2) x0 x1 by (intro scaled_ok) simp_all
    moreover have "scaled h (PyFloat (Finite x)) = Inr \<lfloor>round_double (of_int h * x)\<rfloor>"
      using assms(3,4) x0 x1 by (intro scaled_ok) simp_all
    ultimately show ?thesis using x0 by (simp add: calc_scale scaled_pair_def)
  qed
  moreover have "calculate_size (w, h) W H (Some (PyInt k)) m = Inr (w * k, h * k)" if "0 < k"
    using that by (simp add: calc_scale scaled_pair_def scaled_int)
  ultimately show ?thesis by blast
qed

text \<open>
  The claim as stated fails: a scale of \<open>0.75\<close> on the size \<open>(5, 3)\<close> gives \<open>(3, 2)\<close>, while
  \<open>5 * 0.75 = 3.75\<close> rounds to \<open>4\<close>.
\<close>

theorem calculate_size_scale_not_rounded:
  "calculate_size (5, 3) None None (Some (PyFloat (Finite (3 / 4)))) True = Inr (3, 2)
   \<and> round (5 * (3 / 4) :: rat) = 4"
  by (simp add: float_eval round_def)

theorem calculate_size_scale_truncates_witness:
  "calculate_size (1000, 500) None None (Some (PyFloat (Finite (1 / 2)))) True
              = Inr (\<lfloor>round_double (of_int 1000 * (1 / 2))\<rfloor>, \<lfloor>round_double (of_int 500 * (1 / 2))\<rfloor>)
   \<and> calculate_size (1000, 500) None None (Some (PyInt 2)) True = Inr (1000 * 2, 500 * 2)"
  using calculate_size_scale_truncates [of 1000 500 "1 / 2" None None True 2] by simp




text \<open>
  Claim C3, as amended. For an original size \<open>(w, h)\<close> and a requested box \<open>(W, H)\<close> of
  positive integers below \<open>2 ^ 52\<close>, with \<^verbatim>\<open>maintain_aspect\<close> true and no scale, the size
  calculator returns a size \<open>(rw, rh)\<close> with \<open>0 \<le> rw \<le> W\<close> and \<open>0 \<le> rh \<le> H\<close>; one of
  the two bounds is missed by at most one; and each component differs by less than two
  from the original dimension times the common factor \<open>min (W / w) (H / h)\<close>.
\<close>

theorem calculate_size_fits_box:
  assumes w: "0 < w" "w < 2 ^ 52" and h: "0 < h" "h < 2 ^ 52"
    and W: "0 < W" "W < 2 ^ 52" and H: "0 < H" "H < 2 ^ 52"
  shows "\<exists>rw rh. calculate_size (w, h) (Some W) (Some H) None True = Inr (rw, rh)
           \<and> 0 \<le> rw \<and> rw \<le> W \<and> 0 \<le> rh \<and> rh \<le> H
           \<and> (W - 1 \<le> rw \<or> H - 1 \<le> rh)
           \<and> \<bar>of_int rw - of_int w * min (of_int W / of_int w) (of_int H / of_int h)\<bar> < (2::rat)
           \<and> \<bar>of_int rh - of_int h * min (of_int W / of_int w) (of_int H / of_int h)\<bar> < (2::rat)"
proof -
  define a :: rat where "a = of_int W / of_int w"
  define b :: rat where "b = of_int H / of_int h"
  define \<rho> where "\<rho> = min a b"
  obtain qa where qa: "int_truediv W w = Inr qa" "\<bar>qa - a\<bar> \<le> a / 2 ^ 53"
    using int_truediv_close [OF W w] unfolding a_def by blast
  obtain qb where qb: "int_truediv H h = Inr qb" "\<bar>qb - b\<bar> \<le> b / 2 ^ 53"
    using int_truediv_close [OF H h] unfolding b_def by blast
  define r where "r = min qa qb"
  have a0: "0 < a" using w(1) W(1) by (simp add: a_def)
  have b0: "0 < b" using h(1) H(1) by (simp add: b_def)
  have cl: "\<bar>r - \<rho>\<bar> \<le> \<rho> / 2 ^ 53" and r0: "0 \<le> r"
    using min_close [OF a0 b0 qa(2) qb(2)] by (simp_all add: r_def \<rho>_def)
  have rho0: "0 < \<rho>" using a0 b0 by (simp add: \<rho>_def)
  have "\<rho> \<le> of_int W / of_int w" by (simp add: \<rho>_def a_def)
  from axis_fit [OF w W r0 rho0 this cl]
  obtain rw where rw: "scaled w (PyFloat (Finite r)) = Inr rw" "0 \<le> rw" "rw \<le> W"
      "\<bar>of_int rw - of_int w * \<rho>\<bar> < 2" "\<rho> = of_int W / of_int w \<longrightarrow> W - 1 \<le> rw"
    by blast
  have "\<rho> \<le> of_int H / of_int h" by (simp add: \<rho>_def b_def)
  from axis_fit [OF h H r0 rho0 this cl]
  obtain rh where rh: "scaled h (PyFloat (Finite r)) = Inr rh" "0 \<le> rh" "rh \<le> H"
      "\<bar>of_int rh - of_int h * \<rho>\<bar> < 2" "\<rho> = of_int H / of_int h \<longrightarrow> H - 1 \<le> rh"
    by blast
  have "\<rho> = a \<or> \<rho> = b" by (auto simp: \<rho>_def min_def)
  then have att: "W - 1 \<le> rw \<or> H - 1 \<le> rh"
    using rw(5) rh(5) by (auto simp: a_def b_def)
  have "calculate_size (w, h) (Some W) (Some H) None True = Inr (rw, rh)"
    using w(1) h(1) W(1) H(1) qa(1) qb(1) rw(1) rh(1)
    by (simp add: calculate_size_def scaled_pair_def r_def)
  then show ?thesis
    using rw(2,3,4) rh(2,3,4) att unfolding \<rho>_def a_def b_def by blast
qed

text \<open>
  The claim as stated, for all positive integers, fails where a float no longer holds
  every integer: the box \<open>(2 ^ 53 + 3, 2 ^ 53 + 3)\<close> for the original size \<open>(1, 1)\<close> gives
  \<open>(2 ^ 53 + 4, 2 ^ 53 + 4)\<close>, which exceeds the box.
\<close>

theorem calculate_size_exceeds_box:
  "calculate_size (1, 1) (Some 9007199254740995) (Some 9007199254740995) None True
     = Inr (9007199254740996, 9007199254740996)"
  by (simp add: float_eval)

theorem calculate_size_fits_box_witness:
  "\<exists>rw rh. calculate_size (1000, 500) (Some 800) (Some 800) None True = Inr (rw, rh)
           \<and> 0 \<le> rw \<and> rw \<le> 800 \<and> 0 \<le> rh \<and> rh \<le> 800
           \<and> (800 - 1 \<le> rw \<or> 800 - 1 \<le> rh)
           \<and> \<bar>of_int rw - of_int 1000 * min (of_int 800 / of_int 1000) (of_int 800 / of_int 500)\<bar> < (2::rat)
           \<and> \<bar>of_int rh - of_int 500 * min (of_int 800 / of_int 1000) (of_int 800 / of_int 500)\<bar> < (2::rat)"
  by (rule calculate_size_fits_box) simp_all

text \<open>
  Claim C4. For sizing arguments in the documented domain, the result of the size
  calculator is the result of the one policy that the priority order scale, width and
  height, width, height, unchanged selects among the supplied arguments; with no sizing
  argument the result is the original size.
\<close>

theorem calculate_size_priority:
  assumes "positive_int W" "positive_int H" "positive_scale s"
  shows "calculate_size (w, h) W H s m = apply_policy (effective_policy s W H) (w, h) m
       \<and> calculate_size (w, h) None None None m = Inr (w, h)"
proof -
  have "calculate_size (w, h) W H s m = apply_policy (effective_policy s W H) (w, h) m"
  proof (cases s)
    case (Some v)
    then show ?thesis using assms(3) positive_scale_truthy [of v] by (simp add: calc_scale)
  next
    case None
    show ?thesis
    proof (cases W)
      case W: None
      show ?thesis
      proof (cases H)
        case H: None
        show ?thesis by (simp add: None W H calc_none)
      next
        case H: (Some y)
        then show ?thesis using assms by (simp add: None W positive_int_def calc_height)
      qed
    next
      case W: (Some x)
      show ?thesis
      proof (cases H)
        case H: None
        then show ?thesis using assms by (simp add: None W positive_int_def calc_width)
      next
        case H: (Some y)
        then show ?thesis using assms
          by (cases m) (simp_all add: None W positive_int_def calc_box_aspect calc_box_exact)
      qed
    qed
  qed
  then show ?thesis by (simp add: calc_none)
qed

theorem calculate_size_priority_witness:
  "calculate_size (1000, 500) (Some 800) (Some 600) (Some (PyFloat (Finite (1 / 2)))) True
     = apply_policy (effective_policy (Some (PyFloat (Finite (1 / 2)))) (Some 800) (Some 600)) (1000, 500) True
       \<and> calculate_size (1000, 500) None None None True = Inr (1000, 500)"
  using calculate_size_priority [of "Some 800" "Some 600" "Some (PyFloat (Finite (1 / 2)))" 1000 500 True]
  by (simp add: positive_int_def)

text \<open>
  Claim C5. With \<^verbatim>\<open>maintain_aspect\<close> false, both a width \<open>W\<close> and a height \<open>H\<close> given as
  positive integers and no scale, the size calculator returns \<open>(W, H)\<close> itself, whatever
  the original size is.
\<close>

theorem calculate_size_box_exact:
  assumes "0 < W" "0 < H"
  shows "calculate_size (w, h) (Some W) (Some H) None False = Inr (W, H)"
  using assms by (simp add: calculate_size_def)

theorem calculate_size_box_exact_witness:
  "(0::int) < 800 \<and> calculate_size (1000, 500) (Some 800) (Some 800) None False = Inr (800, 800)"
  using calculate_size_box_exact [of 800 800 1000 500] by simp

section \<open>Files, failures and formats\<close>

subsection \<open>Sequencing\<close>

lemma and_then_Inr [simp]: "and_then (Inr a, w) f = f a w"
  by (simp add: and_then_def)

lemma and_then_Inl [simp]: "and_then (Inl x, w) f = (Inl x, w)"
  by (simp add: and_then_def)

subsection \<open>Names, stems and joined paths\<close>

lemma split_on_absent: "d \<notin> set s \<Longrightarrow> split_on d s = [s]"
  by (induction s) auto

lemma split_on_nonempty: "split_on d s \<noteq> []"
  by (induction s) (auto split: list.splits)

lemma split_on_append:
  "split_on d (xs @ d # ys) = split_on d xs @ split_on d ys"
proof (induction xs)
  case Nil
  then show ?case by simp
next
  case (Cons x xs)
  obtain r rs where r: "split_on d xs = r # rs"
    using split_on_nonempty [of d xs] by (cases "split_on d xs") auto
  show ?case using Cons r by simp
qed

lemma split_on_free: "c \<in> set (split_on d s) \<Longrightarrow> d \<notin> set c"
proof (induction s arbitrary: c)
  case Nil
  then show ?case by simp
next
  case (Cons x s)
  obtain r rs where r: "split_on d s = r # rs"
    using split_on_nonempty [of d s] by (cases "split_on d s") auto
  show ?case
  proof (cases "x = d")
    case True
    then show ?thesis using Cons by auto
  next
    case False
    then have "c = x # r \<or> c \<in> set rs" using Cons.prems r by auto
    then show ?thesis using Cons.IH [of r] Cons.IH [of c] r False by auto
  qed
qed

lemma path_parts_free: "c \<in> set (path_parts p) \<Longrightarrow> CHR ''/'' \<notin> set c \<and> c \<noteq> [] \<and> c \<noteq> ''.''"
  by (auto simp: path_parts_def dest: split_on_free)

lemma path_name_parts:
  "path_name p = (if path_parts p = [] then [] else last (path_parts p))"
  by (simp add: path_name_def path_parts_def split: list.splits)

lemma path_name_free: "CHR ''/'' \<notin> set (path_name p)"
proof (cases "path_parts p = []")
  case True
  then show ?thesis by (simp add: path_name_parts)
next
  case False
  then have "last (path_parts p) \<in> set (path_parts p)" by simp
  from path_parts_free [OF this] show ?thesis using False by (simp add: path_name_parts)
qed

lemma path_stem_free: "CHR ''/'' \<notin> set (path_stem p)"
  using path_name_free [of p] by (auto simp: path_stem_def Let_def dest: in_set_takeD)

lemma lower_char_slash: "lower_char c = CHR ''/'' \<longleftrightarrow> c = CHR ''/''"
proof
  assume a: "lower_char c = CHR ''/''"
  show "c = CHR ''/''"
  proof (rule ccontr)
    assume n: "c \<noteq> CHR ''/''"
    then have r: "65 \<le> (of_char c :: nat)" "(of_char c :: nat) \<le> 90"
        and e: "char_of (of_char c + 32 :: nat) = CHR ''/''"
      using a by (auto simp: lower_char_def Let_def split: if_splits)
    have "(of_char (char_of (of_char c + 32 :: nat)) :: nat) = of_char CHR ''/''"
      by (simp only: e)
    then have m: "(of_char c + 32) mod 256 = (47::nat)" by simp
    have "(of_char c + 32 :: nat) < 256" using r(2) by linarith
    then have "(of_char c + 32) mod 256 = (of_char c + 32 :: nat)" by (rule mod_less)
    then show False using m r(1) by linarith
  qed
next
  assume "c = CHR ''/''"
  then show "lower_char c = CHR ''/''" by (simp add: lower_char_def)
qed

lemma lower_free:
  assumes "CHR ''/'' \<notin> set s"
  shows "CHR ''/'' \<notin> set (lower s)"
proof
  assume "CHR ''/'' \<in> set (lower s)"
  then obtain x where x: "x \<in> set s" "lower_char x = CHR ''/''"
    by (auto simp: lower_def)
  then have "x = CHR ''/''" by (simp add: lower_char_slash)
  then show False using x(1) assms by simp
qed

lemma split_join:
  assumes "\<forall>c\<in>set cs. d \<notin> set c" "cs \<noteq> []"
  shows "split_on d (join_with [d] cs) = cs"
  using assms
proof (induction cs)
  case Nil
  then show ?case by simp
next
  case (Cons c cs)
  show ?case
  proof (cases cs)
    case Nil
    then show ?thesis using Cons.prems by (simp add: split_on_absent)
  next
    case (Cons c' cs')
    have "split_on d (c @ d # join_with [d] cs) = split_on d c @ split_on d (join_with [d] cs)"
      by (rule split_on_append)
    moreover have "split_on d c = [c]" using Cons.prems by (simp add: split_on_absent)
    moreover have "split_on d (join_with [d] cs) = cs"
      using Cons.IH Cons.prems Cons by simp
    ultimately show ?thesis using Cons by simp
  qed
qed

lemma path_parts_slash: "path_parts (CHR ''/'' # t) = path_parts t"
  by (simp add: path_parts_def)

lemma path_parts_empty: "path_parts [] = []"
  by (simp add: path_parts_def)

lemma path_parts_join:
  assumes "\<forall>c\<in>set cs. CHR ''/'' \<notin> set c \<and> c \<noteq> [] \<and> c \<noteq> ''.''"
  shows "path_parts (join_with ''/'' cs) = cs"
proof (cases "cs = []")
  case True
  then show ?thesis by (simp add: path_parts_empty)
next
  case False
  have "split_on CHR ''/'' (join_with [CHR ''/''] cs) = cs"
    using assms False by (intro split_join) auto
  then show ?thesis using assms by (simp add: path_parts_def filter_id_conv)
qed

lemma path_parts_str: "path_parts (path_str s) = path_parts s"
proof -
  have j: "path_parts (join_with ''/'' (path_parts s)) = path_parts s"
    using path_parts_free by (intro path_parts_join) blast
  have r: "path_root s = [] \<or> path_root s = ''/'' \<or> path_root s = ''//''"
    by (simp add: path_root_def)
  show ?thesis
  proof (cases "path_root s = [] \<and> path_parts s = []")
    case True
    then show ?thesis by (simp add: path_str_def path_parts_def)
  next
    case False
    then have "path_str s = path_root s @ join_with ''/'' (path_parts s)"
      by (simp add: path_str_def)
    then show ?thesis using r j by (auto simp: path_parts_slash)
  qed
qed

lemma path_parts_snoc:
  assumes "CHR ''/'' \<notin> set nm" "nm \<noteq> []" "nm \<noteq> ''.''"
  shows "path_parts (a @ CHR ''/'' # nm) = path_parts a @ [nm]"
proof -
  have "split_on CHR ''/'' (a @ CHR ''/'' # nm) = split_on CHR ''/'' a @ [nm]"
    using assms(1) by (simp add: split_on_append split_on_absent)
  then show ?thesis using assms(2,3) by (simp add: path_parts_def)
qed

lemma path_name_join:
  assumes "CHR ''/'' \<notin> set nm" "nm \<noteq> []" "nm \<noteq> ''.''"
  shows "path_name (path_join out nm) = nm"
proof -
  define a where "a = path_str out"
  define t where "t = (if a = [] \<or> last a = CHR ''/'' then a @ nm else a @ ''/'' @ nm)"
  have h: "take 1 nm \<noteq> ''/''" using assms(1,2) by (cases nm) auto
  then have pj: "path_join out nm = path_str t"
    by (simp add: path_join_def Let_def a_def t_def)
  have "\<exists>b. path_parts t = b @ [nm]"
  proof (cases "a = []")
    case True
    then have "t = nm" by (simp add: t_def)
    then have "path_parts t = [] @ [nm]"
      using assms by (simp add: path_parts_def split_on_absent)
    then show ?thesis by blast
  next
    case False
    show ?thesis
    proof (cases "last a = CHR ''/''")
      case True
      then have "a = butlast a @ [CHR ''/'']" using False by (metis append_butlast_last_id)
      then have "t = butlast a @ CHR ''/'' # nm" using True by (simp add: t_def)
      then show ?thesis using path_parts_snoc [OF assms] by simp
    next
      case l: False
      then have "t = a @ CHR ''/'' # nm" using False by (simp add: t_def)
      then show ?thesis using path_parts_snoc [OF assms] by simp
    qed
  qed
  then obtain b where b: "path_parts t = b @ [nm]" by blast
  have "path_parts (path_join out nm) = b @ [nm]" by (simp add: pj path_parts_str b)
  then show ?thesis by (simp add: path_name_parts)
qed

lemma path_name_plain:
  assumes "CHR ''/'' \<notin> set s" "s \<noteq> []" "s \<noteq> ''.''"
  shows "path_name s = s"
  using assms by (simp add: path_name_def split_on_absent)

lemma rfind_last:
  assumes "c \<notin> set ext"
  shows "rfind c (base @ c # ext) = int (length base)"
proof -
  have "takeWhile (\<lambda>x. x \<noteq> c) (rev (base @ c # ext)) = rev ext"
  proof -
    have "\<forall>x\<in>set (rev ext). x \<noteq> c" using assms by auto
    then have "takeWhile (\<lambda>x. x \<noteq> c) (rev ext @ c # rev base) = rev ext"
      by (simp add: takeWhile_tail)
    then show ?thesis by simp
  qed
  then show ?thesis by (simp add: rfind_def)
qed

lemma path_stem_ext:
  assumes "base \<noteq> []" "ext \<noteq> []" "CHR ''.'' \<notin> set ext" "CHR ''/'' \<notin> set (base @ ext)"
  shows "path_stem (base @ ''.'' @ ext) = base"
proof -
  have n: "path_name (base @ CHR ''.'' # ext) = base @ CHR ''.'' # ext"
    using assms by (intro path_name_plain) (auto simp: append_eq_Cons_conv)
  have r: "rfind CHR ''.'' (base @ CHR ''.'' # ext) = int (length base)"
    using assms(3) by (rule rfind_last)
  have "0 < length base" "0 < length ext" using assms(1,2) by simp_all
  then show ?thesis unfolding path_stem_def by (simp add: n r Let_def)
qed

lemma formatted_name_plain:
  assumes "fmt \<noteq> []" "CHR ''/'' \<notin> set fmt"
  shows "CHR ''/'' \<notin> set (path_stem f @ ''.'' @ lower fmt)
       \<and> path_stem f @ ''.'' @ lower fmt \<noteq> []
       \<and> path_stem f @ ''.'' @ lower fmt \<noteq> ''.''"
proof -
  have "lower fmt \<noteq> []" using assms(1) by (simp add: lower_def)
  then have "path_stem f @ ''.'' @ lower fmt \<noteq> ''.''"
    by (cases "path_stem f") auto
  then show ?thesis using path_stem_free [of f] lower_free [OF assms(2)] by simp
qed

subsection \<open>A standard output that takes every line\<close>

text \<open>
  When no \<^verbatim>\<open>print\<close> raises, every exception of the \<^verbatim>\<open>try\<close> block ends in a handler that
  returns \<^verbatim>\<open>None\<close>, and the loop over the URLs reaches its last line.
\<close>

lemma print_succeeds:
  assumes "prints_succeed e"
  shows "\<exists>w1. print e w m = (Inr (), w1)"
proof -
  have "fst (print e w m) = Inr ()" using assms by (simp add: prints_succeed_def)
  then show ?thesis by (cases "print e w m") simp
qed

lemma url_except_returns:
  assumes "prints_succeed e"
  shows "\<exists>w1. url_except e x w = (Inr None, w1)"
proof -
  obtain w1 where "print e w (if x = RequestException then Download_failed x
                          else Process_failed x) = (Inr (), w1)"
    using print_succeeds [OF assms] by blast
  then show ?thesis by (simp add: url_except_def)
qed

lemma process_from_url_returns:
  assumes "prints_succeed e"
  shows "\<exists>r w1. process_from_url e out w url opts = (Inr r, w1)"
proof (cases "fetch_and_resize e w url opts")
  case (Pair r w1)
  show ?thesis
  proof (cases r)
    case (Inl x)
    then show ?thesis
      using Pair url_except_returns [OF assms, of x w1] by (auto simp: process_from_url_def)
  next
    case (Inr resized)
    define P where "P = url_output_path out url opts"
    define ss where "ss = save_settings resized (output_format opts) (quality opts)"
    obtain s w2 where sv: "save e w1 P (fst ss) (snd ss) = (s, w2)"
      by (cases "save e w1 P (fst ss) (snd ss)")
    show ?thesis
    proof (cases s)
      case (Inl x)
      then show ?thesis
        using Pair Inr sv url_except_returns [OF assms, of x w2]
        by (auto simp: process_from_url_def Let_def case_prod_beta P_def ss_def)
    next
      case Inr2: (Inr u)
      obtain w3 where "print e w2 (Saved P) = (Inr (), w3)"
        using print_succeeds [OF assms] by blast
      then show ?thesis
        using Pair Inr sv Inr2
        by (auto simp: process_from_url_def Let_def case_prod_beta P_def ss_def)
    qed
  qed
qed

lemma urls_loop_completes:
  assumes "prints_succeed e"
  shows "\<exists>k w1. urls_loop e out opts n urls i s w = (Inr k, w1)"
proof (induction urls arbitrary: i s w)
  case Nil
  then show ?case by simp
next
  case (Cons url urls)
  obtain w1 where p: "print e w (Item i n) = (Inr (), w1)"
    using print_succeeds [OF assms] by blast
  obtain r w2 where u: "process_from_url e out w1 url opts = (Inr r, w2)"
    using process_from_url_returns [OF assms] by blast
  show ?case using p u Cons.IH by simp
qed

lemma process_from_urls_completes:
  assumes "prints_succeed e"
  shows "\<exists>k w1. process_from_urls e out w urls opts = (Inr (k, length urls), w1)"
proof -
  obtain w1 where p1: "print e w (Processing_images (length urls)) = (Inr (), w1)"
    using print_succeeds [OF assms] by blast
  obtain k w2 where l: "urls_loop e out opts (length urls) urls 1 0 w1 = (Inr k, w2)"
    using urls_loop_completes [OF assms] by blast
  obtain w3 where p2: "print e w2 (Completed k (length urls)) = (Inr (), w3)"
    using print_succeeds [OF assms] by blast
  obtain w4 where p3: "print e w3 (Output_folder (path_str out)) = (Inr (), w4)"
    using print_succeeds [OF assms] by blast
  show ?thesis using p1 l p2 p3 by (simp add: process_from_urls_def)
qed

subsection \<open>What is handed to \<^verbatim>\<open>save\<close>\<close>

lemma process_from_url_save:
  assumes "fetch_and_resize e w url opts = (Inr resized, w1)"
  shows "process_from_url e out w url opts
     = (case save e w1 (url_output_path out url opts)
               (fst (save_settings resized (output_format opts) (quality opts)))
               (snd (save_settings resized (output_format opts) (quality opts))) of
          (Inl x, w2) \<Rightarrow> url_except e x w2
        | (Inr u, w2) \<Rightarrow>
            (case print e w2 (Saved (url_output_path out url opts)) of
               (Inl x, w3) \<Rightarrow> url_except e x w3
             | (Inr u, w3) \<Rightarrow> (Inr (Some (url_output_path out url opts)), w3)))"
  using assms by (simp add: process_from_url_def Let_def case_prod_beta)


subsection \<open>The two example worlds\<close>

lemma example_size:
  "calculate_size (1000, 500) (Some 800) None None True = Inr (800, 400)"
  by (simp add: float_eval)


lemma ascii_fetch:
  "fetch_and_resize ascii_env [] ''http://host/pic.png'' example_options
     = (Inr \<lparr>mode = ''RGBA'', im_size = (800, 400),
              im_data = Resampled (Decoded [137, 80, 78, 71]) (800, 400)\<rparr>, [])"
  by (simp add: fetch_and_resize_def ascii_env_def example_env_def example_options_def
      new_size_of_def example_size)




lemma example_fetch_named:
  "fetch_and_resize example_env [] ''http://host/pic.png''
       (example_options\<lparr>filename := Some ''photo.png''\<rparr>)
     = (Inr \<lparr>mode = ''RGBA'', im_size = (800, 400),
              im_data = Resampled (Decoded [137, 80, 78, 71]) (800, 400)\<rparr>, [])"
  by (simp add: fetch_and_resize_def example_env_def example_options_def new_size_of_def
      example_size)

section \<open>The claims about files, failures and formats\<close>

text \<open>
  Claim C6 says that the enumeration of a folder selects the files whose extension is in
  the list of supported formats, compared without regard to case. The code globs each
  extension twice, in lower case and in upper case. Where file names are case sensitive a
  file named \<^verbatim>\<open>photo.Jpg\<close> is therefore not selected; where they are not, both patterns
  match every image and each one is returned twice.
\<close>

theorem get_images_mixed_case:
  "get_images True [''photo.Jpg''] = []
   \<and> get_images False [''photo.jpg''] = [''photo.jpg'', ''photo.jpg'']"
  by code_simp

text \<open>
  Claim C7 says that \<^verbatim>\<open>process_from_url\<close> returns the output path when every step succeeds
  and no result when the request, the decoder or the save fails, that every such failure
  is caught within the processing of the one item, and that in \<^verbatim>\<open>process_from_urls\<close> a failed
  item never aborts the items after it. The two handlers of \<^verbatim>\<open>process_from_url\<close> print a
  line that starts with a ballot cross (U+2717) before they return, and the last line of
  the \<^verbatim>\<open>try\<close> block prints a check mark (U+2713); a standard output that cannot encode
  these characters raises \<^verbatim>\<open>UnicodeEncodeError\<close>. Raised in a handler, the exception leaves
  \<^verbatim>\<open>process_from_url\<close>, and the loop of \<^verbatim>\<open>process_from_urls\<close> has no \<^verbatim>\<open>try\<close>. On such a
  standard output: a URL that cannot be fetched makes \<^verbatim>\<open>process_from_url\<close> raise instead of
  returning no result; a batch whose first URL cannot be fetched ends with that exception
  before its second URL is looked at, and nothing is saved; and a URL for which every step
  up to and including the save succeeds raises as well, instead of returning the path.
\<close>

theorem process_from_urls_aborted_by_print:
  "process_from_url ascii_env ''out'' [] ''http://host/missing.png'' example_options
     = (Inl UnicodeEncodeError, [])
   \<and> process_from_urls ascii_env ''out'' []
        [''http://host/missing.png'', ''http://host/pic.png''] example_options
     = (Inl UnicodeEncodeError, [])
   \<and> fst (process_from_url ascii_env ''out'' [] ''http://host/pic.png'' example_options)
     = Inl UnicodeEncodeError"
proof -
  have f: "fetch_and_resize ascii_env [] ''http://host/missing.png'' example_options
     = (Inl RequestException, [])"
    by (simp add: fetch_and_resize_def ascii_env_def example_env_def)
  have x: "url_except ascii_env y w = (Inl UnicodeEncodeError, w)" for y w
    by (simp add: url_except_def ascii_env_def example_env_def)
  have a: "process_from_url ascii_env ''out'' [] ''http://host/missing.png'' example_options
     = (Inl UnicodeEncodeError, [])"
    by (simp add: process_from_url_def f x)
  have p: "print ascii_env w (Item i n) = (Inr (), w)"
     "print ascii_env w (Processing_images n) = (Inr (), w)" for w i n
    by (simp_all add: ascii_env_def example_env_def)
  have b: "process_from_urls ascii_env ''out'' []
        [''http://host/missing.png'', ''http://host/pic.png''] example_options
     = (Inl UnicodeEncodeError, [])"
    by (simp add: process_from_urls_def p a)
  have s: "print ascii_env w (Saved q) = (Inl UnicodeEncodeError, w)" for w q
    by (simp add: ascii_env_def example_env_def)
  have c: "fst (process_from_url ascii_env ''out'' [] ''http://host/pic.png'' example_options)
     = Inl UnicodeEncodeError"
    by (simp add: process_from_url_def ascii_fetch x s Let_def case_prod_beta
        split: prod.splits sum.splits)
  from a b c show ?thesis by blast
qed




text \<open>
  Claim C9. When \<^verbatim>\<open>process_from_url\<close> is given a non-empty output format and reaches the
  save, the path that \<^verbatim>\<open>save\<close> receives, and that is printed and returned when the save
  succeeds, is the output folder joined with the stem of the file name (the given one, or
  the one derived from the URL), a dot, and the output format in lower case. When the
  format contains no slash, that string is the name of the saved file; and for a given
  file name \<open>base.ext\<close> the saved name is \<open>base\<close>, a dot and the format in lower case: the
  format replaces the extension of the given name. Paths are POSIX paths and the letters
  of the format are ASCII.
\<close>

theorem url_output_name_uses_format:
  assumes "output_format opts = Some fmt" "fmt \<noteq> []"
    and "fetch_and_resize e w url opts = (Inr resized, w1)"
  shows "process_from_url e out w url opts
     = (case save e w1
               (path_join out (path_stem (url_filename url (filename opts)) @ ''.'' @ lower fmt))
               (fst (save_settings resized (output_format opts) (quality opts)))
               (snd (save_settings resized (output_format opts) (quality opts))) of
          (Inl x, w2) \<Rightarrow> url_except e x w2
        | (Inr u, w2) \<Rightarrow>
            (case print e w2
                    (Saved (path_join out
                       (path_stem (url_filename url (filename opts)) @ ''.'' @ lower fmt))) of
               (Inl x, w3) \<Rightarrow> url_except e x w3
             | (Inr u, w3) \<Rightarrow>
                 (Inr (Some (path_join out
                    (path_stem (url_filename url (filename opts)) @ ''.'' @ lower fmt))), w3)))
   \<and> (CHR ''/'' \<notin> set fmt
        \<longrightarrow> path_name (path_join out
                 (path_stem (url_filename url (filename opts)) @ ''.'' @ lower fmt))
            = path_stem (url_filename url (filename opts)) @ ''.'' @ lower fmt)
   \<and> (filename opts = Some (base @ ''.'' @ ext) \<and> base \<noteq> [] \<and> ext \<noteq> []
          \<and> CHR ''.'' \<notin> set ext \<and> CHR ''/'' \<notin> set (base @ ext)
        \<longrightarrow> path_stem (url_filename url (filename opts)) @ ''.'' @ lower fmt
            = base @ ''.'' @ lower fmt)"
proof -
  have p: "url_output_path out url opts
           = path_join out (path_stem (url_filename url (filename opts)) @ ''.'' @ lower fmt)"
    using assms(1,2) by (simp add: url_output_path_def apply_format_def)
  have a: "process_from_url e out w url opts
     = (case save e w1
               (path_join out (path_stem (url_filename url (filename opts)) @ ''.'' @ lower fmt))
               (fst (save_settings resized (output_format opts) (quality opts)))
               (snd (save_settings resized (output_format opts) (quality opts))) of
          (Inl x, w2) \<Rightarrow> url_except e x w2
        | (Inr u, w2) \<Rightarrow>
            (case print e w2
                    (Saved (path_join out
                       (path_stem (url_filename url (filename opts)) @ ''.'' @ lower fmt))) of
               (Inl x, w3) \<Rightarrow> url_except e x w3
             | (Inr u, w3) \<Rightarrow>
                 (Inr (Some (path_join out
                    (path_stem (url_filename url (filename opts)) @ ''.'' @ lower fmt))), w3)))"
    using process_from_url_save [OF assms(3), of out] by (simp only: p)
  have b: "path_name (path_join out
                 (path_stem (url_filename url (filename opts)) @ ''.'' @ lower fmt))
            = path_stem (url_filename url (filename opts)) @ ''.'' @ lower fmt"
    if "CHR ''/'' \<notin> set fmt"
    using formatted_name_plain [OF assms(2) that, of "url_filename url (filename opts)"]
    by (intro path_name_join) simp_all
  have c: "path_stem (url_filename url (filename opts)) @ ''.'' @ lower fmt
            = base @ ''.'' @ lower fmt"
    if "filename opts = Some (base @ ''.'' @ ext)" and "base \<noteq> []" and "ext \<noteq> []"
      and "CHR ''.'' \<notin> set ext" and "CHR ''/'' \<notin> set (base @ ext)"
  proof -
    have "url_filename url (filename opts) = base @ ''.'' @ ext"
      using that(1) by (simp add: url_filename_def)
    then show ?thesis using path_stem_ext [OF that(2,3,4,5)] by simp
  qed
  from a b c show ?thesis by blast
qed

theorem url_output_name_uses_format_witness:
  "process_from_url example_env ''out'' [] ''http://host/pic.png''
       (example_options\<lparr>filename := Some ''photo.png''\<rparr>)
     = (Inr (Some ''out/photo.jpg''),
        [(''out/photo.jpg'',
          \<lparr>mode = ''RGB'', im_size = (800, 400),
            im_data = Pasted (Filled (255, 255, 255))
                        (Resampled (Decoded [137, 80, 78, 71]) (800, 400))
                        (Band (Resampled (Decoded [137, 80, 78, 71]) (800, 400)) 3)\<rparr>,
          \<lparr>kw_quality = Some 90, kw_optimize = True\<rparr>)])
   \<and> path_name ''out/photo.jpg'' = ''photo.jpg''"
proof -
  let ?opts = "example_options\<lparr>filename := Some ''photo.png''\<rparr>"
  have f: "output_format ?opts = Some ''JPG''" by (simp add: example_options_def)
  have n: "''JPG'' \<noteq> []" by simp
  have h: "filename ?opts = Some (''photo'' @ ''.'' @ ''png'') \<and> ''photo'' \<noteq> [] \<and> ''png'' \<noteq> []
           \<and> CHR ''.'' \<notin> set ''png'' \<and> CHR ''/'' \<notin> set (''photo'' @ ''png'')"
    by (simp add: example_options_def)
  have s: "CHR ''/'' \<notin> set ''JPG''" by simp
  have l: "lower ''JPG'' = ''jpg''" by code_simp
  have j: "path_join ''out'' ''photo.jpg'' = ''out/photo.jpg''" by code_simp
  have ss: "save_settings \<lparr>mode = ''RGBA'', im_size = (800, 400),
              im_data = Resampled (Decoded [137, 80, 78, 71]) (800, 400)\<rparr>
              (output_format ?opts) (quality ?opts)
      = (\<lparr>mode = ''RGB'', im_size = (800, 400),
            im_data = Pasted (Filled (255, 255, 255))
                        (Resampled (Decoded [137, 80, 78, 71]) (800, 400))
                        (Band (Resampled (Decoded [137, 80, 78, 71]) (800, 400)) 3)\<rparr>,
          \<lparr>kw_quality = Some 90, kw_optimize = True\<rparr>)"
    by (simp add: save_settings_def example_options_def l flatten_def)
  have sv: "save example_env w p i k = (Inr (), w @ [(p, i, k)])" if "p \<noteq> ''out/locked.png''"
    for w p i k using that by (simp add: example_env_def)
  have pr: "print example_env w msg = (Inr (), w)" for w msg
    by (simp add: example_env_def)
  note t = url_output_name_uses_format [OF f n example_fetch_named, where out = "''out''" and base = "''photo''"
      and ext = "''png''"]
  have ps: "path_stem (url_filename ''http://host/pic.png'' (Some ''photo.png'')) = ''photo''"
    by code_simp
  have oo: "output_format example_options = Some ''JPG''"
    and qo: "quality example_options = 90"
    by (simp_all add: example_options_def)
  have pn: "path_name ''out/photo.jpg'' = ''photo.jpg''" by code_simp
  show ?thesis using t h s
    by (simp add: l ps j oo qo pn save_settings_def flatten_def sv pr)
qed

text \<open>
  Claim C10. A sizing argument whose value is zero is treated as an argument that is not
  given: a zero width, a zero height, and a zero scale (the integer or the float) each give
  the result of the call without that argument, so that the next policy in the order
  applies; when all three are zero the original size is returned.
\<close>

theorem calculate_size_zero_is_absent:
  "calculate_size sz (Some 0) H s m = calculate_size sz None H s m
   \<and> calculate_size sz W (Some 0) s m = calculate_size sz W None s m
   \<and> calculate_size sz W H (Some (PyInt 0)) m = calculate_size sz W H None m
   \<and> calculate_size sz W H (Some (PyFloat (Finite 0))) m = calculate_size sz W H None m
   \<and> calculate_size sz (Some 0) (Some 0) (Some (PyInt 0)) m = Inr sz
   \<and> calculate_size sz (Some 0) (Some 0) (Some (PyFloat (Finite 0))) m = Inr sz"
  by (cases sz; cases "if_num s") (simp_all add: calculate_size_def)

end
